theory Spec2Isabelle
  imports Complex_Main "HOL-Library.Word" "HOL-Library.Char_ord" "HOL-Library.List_Lexorder"
begin

section \<open>Errors and panics\<close>

text \<open>
  The package-level error values of \<^verbatim>\<open>lib\<close> that the modelled functions return, the
  \<^verbatim>\<open>invalidHTTPMethodError\<close> struct, and an opaque error for values produced by
  libraries outside the repository (URL parsing, file reading, TLS loading, transport).
\<close>

datatype error =
    errInvalidURL
  | errZeroRate
  | errInvalidNumberOfConns
  | errInvalidNumberOfRequests
  | errInvalidTestDuration
  | errNegativeTimeout
  | errBodyNotAllowed
  | errBodyProvidedTwice
  | errNoPathToKey
  | errNoPathToCert
  | errInvalidHeaderFormat
  | invalidHTTPMethodError string
  | libraryError string

text \<open>
  A Go function either returns normally, returns an error value, or panics. A returned
  error is \<open>Inl (Err e)\<close>, a run-time panic is \<open>Inl (Panic msg)\<close>.
\<close>

datatype fault = Err error | Panic string

section \<open>headers.go\<close>

record header =
  key :: string
  val :: string

type_synonym HeadersList = "header list"

text \<open>
  \<^verbatim>\<open>strings.Index\<close> for a one-byte separator: the position of its first occurrence.
\<close>

fun IndexByte :: "string \<Rightarrow> char \<Rightarrow> nat option" where
  "IndexByte [] c = None"
| "IndexByte (x # xs) c = (if x = c then Some 0 else map_option Suc (IndexByte xs c))"

text \<open>
  \<^verbatim>\<open>strings.SplitN(s, sep, n)\<close> for a one-byte separator and \<open>n \<ge> 0\<close>, after the standard
  library's \<^verbatim>\<open>genSplit\<close>: \<open>n\<close> is capped at \<open>len(s) + 1\<close>, at most \<open>n - 1\<close> cuts are made
  at successive first occurrences of the separator, and the rest is the last piece.
\<close>

fun genSplit_loop :: "string \<Rightarrow> char \<Rightarrow> nat \<Rightarrow> string list" where
  "genSplit_loop s sep 0 = [s]"
| "genSplit_loop s sep (Suc n) =
     (case IndexByte s sep of
        None \<Rightarrow> [s]
      | Some m \<Rightarrow> take m s # genSplit_loop (drop (m + 1) s) sep n)"

definition SplitN :: "string \<Rightarrow> char \<Rightarrow> nat \<Rightarrow> string list" where
  "SplitN s sep n = (if n = 0 then [] else genSplit_loop s sep (min n (length s + 1) - 1))"

text \<open>
  \<^verbatim>\<open>strings.Trim(s, cutset)\<close>: all leading and all trailing bytes that occur in the cutset
  are removed.
\<close>

definition TrimLeft :: "string \<Rightarrow> string \<Rightarrow> string" where
  "TrimLeft s cutset = dropWhile (\<lambda>c. c \<in> set cutset) s"

definition TrimRight :: "string \<Rightarrow> string \<Rightarrow> string" where
  "TrimRight s cutset = rev (dropWhile (\<lambda>c. c \<in> set cutset) (rev s))"

definition Trim :: "string \<Rightarrow> string \<Rightarrow> string" where
  "Trim s cutset = TrimRight (TrimLeft s cutset) cutset"

text \<open>
  \<^verbatim>\<open>func (h *HeadersList) Set(value string) error\<close>. The receiver is updated in place; the
  model returns the error (\<open>None\<close> for \<^verbatim>\<open>nil\<close>) together with the list afterwards.
\<close>

definition HeadersList_Set :: "HeadersList \<Rightarrow> string \<Rightarrow> error option \<times> HeadersList" where
  "HeadersList_Set h v =
     (let res = SplitN v (CHR '':'') 2 in
      if length res \<noteq> 2 then (Some errInvalidHeaderFormat, h)
      else (None, h @ [\<lparr>key = res ! 0, val = Trim (res ! 1) '' ''\<rparr>]))"

text \<open>
  Repeated \<^verbatim>\<open>Set\<close> calls on one list, as a flag parser makes them for a repeated
  \<^verbatim>\<open>--header\<close> option: the errors of the calls in order, and the list after the last call.
\<close>

fun Set_each :: "HeadersList \<Rightarrow> string list \<Rightarrow> error option list \<times> HeadersList" where
  "Set_each h [] = ([], h)"
| "Set_each h (v # vs) =
     (case HeadersList_Set h v of
        (e, h') \<Rightarrow> (case Set_each h' vs of (es, h'') \<Rightarrow> (e # es, h'')))"

text \<open>
  What the claim calls the header of an input: the text before the first colon as the key,
  and the text after it, without the spaces around it, as the value.
\<close>

definition strip_spaces :: "string \<Rightarrow> string" where
  "strip_spaces s =
     rev (dropWhile (\<lambda>c. c = CHR '' '') (rev (dropWhile (\<lambda>c. c = CHR '' '') s)))"

definition header_of :: "string \<Rightarrow> header" where
  "header_of v =
     \<lparr>key = takeWhile (\<lambda>c. c \<noteq> CHR '':'') v,
      val = strip_spaces (tl (dropWhile (\<lambda>c. c \<noteq> CHR '':'') v))\<rparr>"


section \<open>Machine integers, channels and \<^verbatim>\<open>sync.Once\<close>\<close>

text \<open>
  \<^verbatim>\<open>uint64\<close> and \<^verbatim>\<open>int64\<close> are 64-bit words; an \<^verbatim>\<open>int64\<close> is read with \<open>sint\<close>.
  \<^verbatim>\<open>atomic.AddUint64\<close> and \<^verbatim>\<open>atomic.AddInt64\<close> add with wrap-around and return the new
  value.
\<close>

type_synonym uint64 = "64 word"
type_synonym int64 = "64 word"

definition AddUint64 :: "uint64 \<Rightarrow> uint64 \<Rightarrow> uint64" where
  "AddUint64 addr delta = addr + delta"

definition AddInt64 :: "int64 \<Rightarrow> int64 \<Rightarrow> int64" where
  "AddInt64 addr delta = addr + delta"

text \<open>
  A \<^verbatim>\<open>chan struct{}\<close> on which nothing is ever sent: all that matters is whether it has been
  closed. \<open>closes\<close> is a history variable, the number of \<^verbatim>\<open>close\<close> operations executed on
  the channel; the code does not read it. Closing a closed channel panics.
\<close>

record chan =
  is_closed :: bool
  closes :: nat

definition make_chan :: chan where
  "make_chan = \<lparr>is_closed = False, closes = 0\<rparr>"

definition close_chan :: "chan \<Rightarrow> fault + chan" where
  "close_chan ch =
     (if is_closed ch then Inl (Panic ''close of closed channel'')
      else Inr \<lparr>is_closed = True, closes = closes ch + 1\<rparr>)"

section \<open>The completion barriers (src/unnamed/part\_000)\<close>

text \<open>
  Both barrier structs hold the done channel and the \<^verbatim>\<open>sync.Once\<close> that guards its
  closing; \<open>closeOnce\<close> is the \<^verbatim>\<open>Once\<close>'s done flag.
\<close>

record done_signal =
  doneChan :: chan
  closeOnce :: bool

record countingCompletionBarrier = done_signal +
  numReqs :: uint64
  reqsGrabbed :: uint64
  reqsDone :: uint64

text \<open>
  Time instants are nanoseconds on the monotonic clock; a \<^verbatim>\<open>time.Duration\<close> is an
  \<^verbatim>\<open>int64\<close> of nanoseconds.
\<close>

record timedCompletionBarrier = done_signal +
  start :: int
  duration :: int64

text \<open>
  \<^verbatim>\<open>c.closeOnce.Do(func() { close(c.doneChan) })\<close>, the statement that \<^verbatim>\<open>jobDone\<close>,
  both \<^verbatim>\<open>Cancel\<close> methods and the deadline timer of the timed barrier share. \<^verbatim>\<open>Do\<close> runs
  the function only on its first call, under the \<^verbatim>\<open>Once\<close>'s mutex, so the step is atomic.
\<close>

definition closeOnce_Do_close ::
  "'a done_signal_scheme \<Rightarrow> fault + 'a done_signal_scheme" where
  "closeOnce_Do_close c =
     (if closeOnce c then Inr c
      else (case close_chan (doneChan c) of
              Inl f \<Rightarrow> Inl f
            | Inr ch \<Rightarrow> Inr (c\<lparr>doneChan := ch, closeOnce := True\<rparr>)))"

definition newCountingCompletionBarrier :: "uint64 \<Rightarrow> countingCompletionBarrier" where
  "newCountingCompletionBarrier n =
     \<lparr>doneChan = make_chan, closeOnce = False, numReqs = n, reqsGrabbed = 0, reqsDone = 0\<rparr>"

text \<open>
  \<^verbatim>\<open>tryGrabWork\<close>: the result and the barrier afterwards. The local that holds the new value
  of \<^verbatim>\<open>reqsGrabbed\<close> is called \<^verbatim>\<open>reqsDone\<close> in the source.
\<close>

definition counting_tryGrabWork ::
  "countingCompletionBarrier \<Rightarrow> bool \<times> countingCompletionBarrier" where
  "counting_tryGrabWork c =
     (if is_closed (doneChan c) then (False, c)
      else (let reqsDone' = AddUint64 (reqsGrabbed c) 1
            in (reqsDone' \<le> numReqs c, c\<lparr>reqsGrabbed := reqsDone'\<rparr>)))"

definition counting_jobDone ::
  "countingCompletionBarrier \<Rightarrow> fault + countingCompletionBarrier" where
  "counting_jobDone c =
     (let reqsDone' = AddUint64 (reqsDone c) 1;
          c' = c\<lparr>reqsDone := reqsDone'\<rparr>
      in if reqsDone' = numReqs c then closeOnce_Do_close c' else Inr c')"

definition counting_done :: "countingCompletionBarrier \<Rightarrow> chan" where
  "counting_done c = doneChan c"

definition counting_Cancel ::
  "countingCompletionBarrier \<Rightarrow> fault + countingCompletionBarrier" where
  "counting_Cancel c = closeOnce_Do_close c"

text \<open>
  The arithmetic of \<^verbatim>\<open>float64\<close>, the binary64 format of IEEE 754, as far as \<^verbatim>\<open>completed()\<close>
  uses it: the conversion of a 64-bit integer and the division of two such numbers. Both
  round the exact result to the nearest number with a significand of 53 bits, a tie going
  to the even significand. The operands are integers below \<open>2^64\<close> in magnitude, so a
  quotient is zero or lies between \<open>2^-64\<close> and \<open>2^64\<close>: the exponent never leaves the
  normal range, and the rounding is written without its bounds.

  \<open>bit_length n\<close> is the number of binary digits of \<open>n\<close>, and \<open>ilog2 x\<close>, for \<open>x > 0\<close>,
  the exponent \<open>k\<close> with \<open>2^k \<le> x < 2^(k+1)\<close>.
\<close>

function bit_length :: "int \<Rightarrow> nat" where
  "bit_length n = (if n \<le> 0 then 0 else Suc (bit_length (n div 2)))"
  by pat_completeness auto
termination
  by (relation "measure nat") auto

declare bit_length.simps [simp del]

definition ilog2 :: "real \<Rightarrow> int" where
  "ilog2 x =
     (if 1 \<le> x then int (bit_length \<lfloor>x\<rfloor>) - 1
      else - int (bit_length (\<lceil>1 / x\<rceil> - 1)))"

definition round_half_even :: "real \<Rightarrow> int" where
  "round_half_even y =
     (let f = \<lfloor>y\<rfloor>; d = y - of_int f
      in if d < 1 / 2 then f
         else if 1 / 2 < d then f + 1
         else if even f then f else f + 1)"

definition round_binary64 :: "real \<Rightarrow> real" where
  "round_binary64 x =
     (if x = 0 then 0
      else (let e = ilog2 \<bar>x\<bar> - 52
            in sgn x * of_int (round_half_even (\<bar>x\<bar> / 2 powi e)) * 2 powi e))"

text \<open>
  A \<^verbatim>\<open>float64\<close> result, the conversion \<^verbatim>\<open>float64(n)\<close> of an integer, and the division of two
  \<^verbatim>\<open>float64\<close> numbers. Division by zero does not panic: it gives an infinity or NaN.
\<close>

datatype float64 = Finite real | PosInf | NegInf | NaN

definition float64_of_int :: "int \<Rightarrow> real" where
  "float64_of_int n = round_binary64 (of_int n)"

definition float64_div :: "real \<Rightarrow> real \<Rightarrow> float64" where
  "float64_div x y =
     (if y \<noteq> 0 then Finite (round_binary64 (x / y))
      else if x = 0 then NaN
      else if 0 < x then PosInf else NegInf)"

definition counting_completed :: "countingCompletionBarrier \<Rightarrow> float64" where
  "counting_completed c =
     (if is_closed (doneChan c) then Finite 1
      else float64_div (float64_of_int (uint (reqsDone c)))
             (float64_of_int (uint (numReqs c))))"

text \<open>
  \<^verbatim>\<open>newTimedCompletionBarrier\<close> at the instant \<open>now\<close>. The goroutine it starts arms a timer
  that runs \<^verbatim>\<open>closeOnce.Do(close)\<close> once the duration has passed; that later step is
  \<open>timed_deadline\<close>.
\<close>

definition newTimedCompletionBarrier :: "int \<Rightarrow> int64 \<Rightarrow> fault + timedCompletionBarrier" where
  "newTimedCompletionBarrier now d =
     (if sint d < 0 then Inl (Panic ''timedCompletionBarrier: negative duration'')
      else Inr \<lparr>doneChan = make_chan, closeOnce = False, start = now, duration = d\<rparr>)"

definition timed_deadline :: "timedCompletionBarrier \<Rightarrow> fault + timedCompletionBarrier" where
  "timed_deadline c = closeOnce_Do_close c"

definition timed_tryGrabWork :: "timedCompletionBarrier \<Rightarrow> bool \<times> timedCompletionBarrier" where
  "timed_tryGrabWork c = (if is_closed (doneChan c) then (False, c) else (True, c))"

definition timed_jobDone :: "timedCompletionBarrier \<Rightarrow> fault + timedCompletionBarrier" where
  "timed_jobDone c = Inr c"

definition timed_done :: "timedCompletionBarrier \<Rightarrow> chan" where
  "timed_done c = doneChan c"

definition timed_Cancel :: "timedCompletionBarrier \<Rightarrow> fault + timedCompletionBarrier" where
  "timed_Cancel c = closeOnce_Do_close c"

text \<open>
  \<^verbatim>\<open>time.Since(start)\<close> read at the instant \<open>now\<close>: the difference, saturated to the range
  of \<^verbatim>\<open>int64\<close> as \<^verbatim>\<open>Time.Sub\<close> does.
\<close>

definition Since :: "int \<Rightarrow> int \<Rightarrow> int64" where
  "Since t now = word_of_int (max (- (2 ^ 63)) (min (2 ^ 63 - 1) (now - t)))"

definition timed_completed :: "timedCompletionBarrier \<Rightarrow> int \<Rightarrow> float64" where
  "timed_completed c now =
     (if is_closed (doneChan c) then Finite 1
      else float64_div (float64_of_int (sint (Since (start c) now)))
             (float64_of_int (sint (duration c))))"

text \<open>
  The interface \<^verbatim>\<open>completionBarrier\<close> with its two implementations, and the dispatch of
  its methods.
\<close>

datatype completionBarrier =
    Counting countingCompletionBarrier
  | Timed timedCompletionBarrier

fun tryGrabWork :: "completionBarrier \<Rightarrow> bool \<times> completionBarrier" where
  "tryGrabWork (Counting c) = (case counting_tryGrabWork c of (r, c') \<Rightarrow> (r, Counting c'))"
| "tryGrabWork (Timed c) = (case timed_tryGrabWork c of (r, c') \<Rightarrow> (r, Timed c'))"

fun jobDone :: "completionBarrier \<Rightarrow> fault + completionBarrier" where
  "jobDone (Counting c) = map_sum id Counting (counting_jobDone c)"
| "jobDone (Timed c) = map_sum id Timed (timed_jobDone c)"

fun Cancel :: "completionBarrier \<Rightarrow> fault + completionBarrier" where
  "Cancel (Counting c) = map_sum id Counting (counting_Cancel c)"
| "Cancel (Timed c) = map_sum id Timed (timed_Cancel c)"

fun barrier_done :: "completionBarrier \<Rightarrow> chan" where
  "barrier_done (Counting c) = counting_done c"
| "barrier_done (Timed c) = timed_done c"

fun completed :: "completionBarrier \<Rightarrow> int \<Rightarrow> float64" where
  "completed (Counting c) now = counting_completed c"
| "completed (Timed c) now = timed_completed c now"

text \<open>
  A call made on a barrier, for sequences of calls in any order. \<open>Deadline\<close> is the firing
  of the timer of a timed barrier, which no caller makes; on a counting barrier there is no
  such timer and the step changes nothing.
\<close>

datatype barrier_call = CallTryGrabWork | CallJobDone | CallCancel | CallCompleted | Deadline

fun call :: "completionBarrier \<Rightarrow> barrier_call \<Rightarrow> fault + completionBarrier" where
  "call b CallTryGrabWork = Inr (snd (tryGrabWork b))"
| "call b CallJobDone = jobDone b"
| "call b CallCancel = Cancel b"
| "call b CallCompleted = Inr b"
| "call (Timed c) Deadline = map_sum id Timed (timed_deadline c)"
| "call (Counting c) Deadline = Inr (Counting c)"

fun calls :: "completionBarrier \<Rightarrow> barrier_call list \<Rightarrow> fault + completionBarrier" where
  "calls b [] = Inr b"
| "calls b (x # xs) = (case call b x of Inl f \<Rightarrow> Inl f | Inr b' \<Rightarrow> calls b' xs)"

text \<open>
  What holds of the channel and the \<^verbatim>\<open>Once\<close> in every state the code can reach: the channel
  is closed exactly when the \<^verbatim>\<open>Once\<close> has run, and then \<^verbatim>\<open>close\<close> has been executed once.
\<close>

definition once_inv :: "'a done_signal_scheme \<Rightarrow> bool" where
  "once_inv c \<longleftrightarrow>
     closeOnce c = is_closed (doneChan c)
     \<and> closes (doneChan c) = (if is_closed (doneChan c) then 1 else 0)"

text \<open>The range the claim gives for \<^verbatim>\<open>completed()\<close>: a number from 0 to 1.\<close>

fun in_unit_interval :: "float64 \<Rightarrow> bool" where
  "in_unit_interval (Finite r) = (0 \<le> r \<and> r \<le> 1)"
| "in_unit_interval PosInf = False"
| "in_unit_interval NegInf = False"
| "in_unit_interval NaN = False"

text \<open>
  While the done channel of a counting barrier for at least one request is open, fewer
  jobs are done than the barrier asks for.
\<close>

definition done_below_total :: "countingCompletionBarrier \<Rightarrow> bool" where
  "done_below_total c \<longleftrightarrow>
     once_inv c \<and> (is_closed (doneChan c) \<or> reqsDone c < numReqs c)"


section \<open>Config and its validation (src/lib/config.go, first part)\<close>

text \<open>
  Go's integer division truncates toward zero. Both divisions of the modelled code have a
  constant divisor that is not zero.
\<close>

definition quo :: "int \<Rightarrow> int \<Rightarrow> int" where
  "quo a b = (if (a < 0) = (b < 0) then \<bar>a\<bar> div \<bar>b\<bar> else - (\<bar>a\<bar> div \<bar>b\<bar>))"

datatype format = nilFormat | knownFormat string | userDefinedTemplate string

type_synonym clientTyp = int

definition fhttp :: clientTyp where "fhttp = 0"
definition nhttp1 :: clientTyp where "nhttp1 = 1"
definition nhttp2 :: clientTyp where "nhttp2 = 2"

text \<open>
  The struct \<^verbatim>\<open>Config\<close>. A pointer field that may be \<^verbatim>\<open>nil\<close> is an option.
\<close>

record Config =
  NumConns :: uint64
  NumReqs :: "uint64 option"
  Duration :: "int64 option"
  Url :: string
  Method :: string
  CertPath :: string
  KeyPath :: string
  Body :: string
  BodyFilePath :: string
  Stream :: bool
  Headers :: "HeadersList option"
  Timeout :: int64
  PrintLatencies :: bool
  Insecure :: bool
  Rate :: "uint64 option"
  ClientType :: clientTyp
  PrintIntro :: bool
  PrintProgress :: bool
  PrintResult :: bool
  Format :: format

datatype testTyp = none | timed | counted

definition time_Second :: int where
  "time_Second = 1000000000"

text \<open>
  What the code takes from outside \<^verbatim>\<open>src/\<close>: the package variables \<^verbatim>\<open>httpMethods\<close>,
  \<^verbatim>\<open>cantHaveBody\<close> and \<^verbatim>\<open>defaultTestDuration\<close>, whose declarations are not among the
  sources, and the results of library calls that read the environment (\<^verbatim>\<open>urlx.Parse\<close>,
  \<^verbatim>\<open>tls.LoadX509KeyPair\<close>, \<^verbatim>\<open>ioutil.ReadFile\<close>, the template of a known format and
  \<^verbatim>\<open>template.Parse\<close>, \<^verbatim>\<open>time.Now\<close>). They are parameters of the model.
\<close>

record URL =
  Scheme :: string
  Host :: string
  String :: string

record externals =
  httpMethods :: "string list"
  cantHaveBody :: "string list"
  defaultTestDuration :: int64
  urlx_Parse :: "string \<Rightarrow> error + URL"
  LoadX509KeyPair :: "string \<Rightarrow> string \<Rightarrow> error + string"
  ReadFile :: "string \<Rightarrow> error + string"
  knownFormat_template :: "string \<Rightarrow> string"
  template_Parse :: "string \<Rightarrow> error + string"
  time_Now :: int

definition testType :: "Config \<Rightarrow> testTyp" where
  "testType c =
     (if NumReqs c \<noteq> None then counted
      else if Duration c \<noteq> None then timed
      else none)"

definition checkOrSetDefaultTestType :: "externals \<Rightarrow> Config \<Rightarrow> Config" where
  "checkOrSetDefaultTestType x c =
     (if testType c = none then c\<lparr>Duration := Some (defaultTestDuration x)\<rparr> else c)"

text \<open>
  Each check returns its error (\<open>None\<close> for \<^verbatim>\<open>nil\<close>) and the \<^verbatim>\<open>Config\<close> afterwards;
  only \<^verbatim>\<open>checkURL\<close> writes to it.
\<close>

definition checkURL :: "externals \<Rightarrow> Config \<Rightarrow> error option \<times> Config" where
  "checkURL x c =
     (case urlx_Parse x (Url c) of
        Inl err \<Rightarrow> (Some err, c)
      | Inr url \<Rightarrow>
          if Host url = [] \<or> (Scheme url \<noteq> ''http'' \<and> Scheme url \<noteq> ''https'')
          then (Some errInvalidURL, c)
          else (None, c\<lparr>Url := String url\<rparr>))"

definition checkRate :: "Config \<Rightarrow> error option \<times> Config" where
  "checkRate c =
     (if (case Rate c of None \<Rightarrow> False | Some r \<Rightarrow> r < 1) then (Some errZeroRate, c)
      else (None, c))"

definition checkRunParameters :: "Config \<Rightarrow> error option \<times> Config" where
  "checkRunParameters c =
     (if NumConns c < 1 then (Some errInvalidNumberOfConns, c)
      else if testType c = counted \<and> (case NumReqs c of None \<Rightarrow> False | Some n \<Rightarrow> n < 1)
      then (Some errInvalidNumberOfRequests, c)
      else if testType c = timed
              \<and> (case Duration c of None \<Rightarrow> False | Some d \<Rightarrow> sint d < time_Second)
      then (Some errInvalidTestDuration, c)
      else (None, c))"

definition checkTimeoutDuration :: "Config \<Rightarrow> error option \<times> Config" where
  "checkTimeoutDuration c =
     (if sint (Timeout c) < 0 then (Some errNegativeTimeout, c) else (None, c))"

text \<open>
  \<^verbatim>\<open>sort.Search\<close>, the binary search of the standard library, and \<^verbatim>\<open>sort.SearchStrings\<close>;
  strings are compared byte by byte.
\<close>

function Search_loop :: "(nat \<Rightarrow> bool) \<Rightarrow> nat \<Rightarrow> nat \<Rightarrow> nat" where
  "Search_loop f i j =
     (if i < j
      then (if \<not> f ((i + j) div 2) then Search_loop f ((i + j) div 2 + 1) j
            else Search_loop f i ((i + j) div 2))
      else i)"
  by pat_completeness auto
termination
  by (relation "measure (\<lambda>(f, i, j). j - i)") auto

definition Search :: "nat \<Rightarrow> (nat \<Rightarrow> bool) \<Rightarrow> nat" where
  "Search n f = Search_loop f 0 n"

definition SearchStrings :: "string list \<Rightarrow> string \<Rightarrow> nat" where
  "SearchStrings a s = Search (length a) (\<lambda>i. s \<le> a ! i)"

definition allowedHTTPMethod :: "externals \<Rightarrow> string \<Rightarrow> bool" where
  "allowedHTTPMethod x method =
     (let i = SearchStrings (httpMethods x) method
      in i < length (httpMethods x) \<and> httpMethods x ! i = method)"

definition canHaveBody :: "externals \<Rightarrow> string \<Rightarrow> bool" where
  "canHaveBody x method =
     (let i = SearchStrings (cantHaveBody x) method
      in \<not> (i < length (cantHaveBody x) \<and> cantHaveBody x ! i = method))"

definition checkHTTPParameters :: "externals \<Rightarrow> Config \<Rightarrow> error option \<times> Config" where
  "checkHTTPParameters x c =
     (if \<not> allowedHTTPMethod x (Method c) then (Some (invalidHTTPMethodError (Method c)), c)
      else if \<not> canHaveBody x (Method c) \<and> (Body c \<noteq> [] \<or> BodyFilePath c \<noteq> [])
      then (Some errBodyNotAllowed, c)
      else if Body c \<noteq> [] \<and> BodyFilePath c \<noteq> [] then (Some errBodyProvidedTwice, c)
      else (None, c))"

definition checkCertPaths :: "Config \<Rightarrow> error option \<times> Config" where
  "checkCertPaths c =
     (if CertPath c \<noteq> [] \<and> KeyPath c = [] then (Some errNoPathToKey, c)
      else if CertPath c = [] \<and> KeyPath c \<noteq> [] then (Some errNoPathToCert, c)
      else (None, c))"

text \<open>
  The loop of \<^verbatim>\<open>checkArgs\<close> over its list of checks: the first error ends it.
\<close>

fun run_checks ::
  "(Config \<Rightarrow> error option \<times> Config) list \<Rightarrow> Config \<Rightarrow> error option \<times> Config" where
  "run_checks [] c = (None, c)"
| "run_checks (check # checks) c =
     (case check c of
        (Some err, c') \<Rightarrow> (Some err, c')
      | (None, c') \<Rightarrow> run_checks checks c')"

definition checkArgs :: "externals \<Rightarrow> Config \<Rightarrow> error option \<times> Config" where
  "checkArgs x c =
     run_checks
       [checkURL x, checkRate, checkRunParameters, checkTimeoutDuration,
        checkHTTPParameters x, checkCertPaths]
       (checkOrSetDefaultTestType x c)"


section \<open>The bombardier (src/lib/config.go, second part; src/unnamed/part\_002)\<close>

text \<open>
  Values of libraries outside the repository, reduced to what the modelled code sets or
  reads: the progress bar of \<^verbatim>\<open>pb\<close>, a TLS configuration, the options handed to the HTTP
  client, and the client chosen by \<^verbatim>\<open>makeHTTPClient\<close>.
\<close>

datatype writer = Stdout | Discard

record ProgressBar =
  Total :: int64
  ShowCounters :: bool
  ShowPercent :: bool
  ManualUpdate :: bool
  NotPrint :: bool
  Output :: writer

definition pb_New64 :: "int64 \<Rightarrow> ProgressBar" where
  "pb_New64 n =
     \<lparr>Total = n, ShowCounters = True, ShowPercent = True, ManualUpdate = False,
      NotPrint = False, Output = Stdout\<rparr>"

record tlsConfig =
  InsecureSkipVerify :: bool
  Certificates :: "string list"

datatype bodyStreamProducer = OpenFile string | ReadString string

record clientOpts =
  HTTP2 :: bool
  maxConns :: uint64
  timeout :: int64
  tlsConf :: tlsConfig
  headers :: "HeadersList option"
  url :: string
  http_method :: string
  body :: "string option"
  bodProd :: "bodyStreamProducer option"

datatype client = FastHTTPClient clientOpts | HTTPClient clientOpts

datatype limiter = bucketLimiter uint64 | nooplimiter

text \<open>
  The latency histogram of \<^verbatim>\<open>uhist\<close>, a library outside the repository: how often each
  value has been recorded.
\<close>

type_synonym Histogram = "uint64 \<Rightarrow> nat"

definition Histogram_Default :: Histogram where
  "Histogram_Default = (\<lambda>_. 0)"

definition Histogram_Increment :: "Histogram \<Rightarrow> uint64 \<Rightarrow> Histogram" where
  "Histogram_Increment h v = h(v := h v + 1)"

text \<open>
  Modelled from the spec: \<^verbatim>\<open>errorMap\<close> with \<^verbatim>\<open>newErrorMap\<close> and \<^verbatim>\<open>add\<close> is not under
  \<^verbatim>\<open>src/\<close>. The spec has it as a mapping from the canonical string of an error to the number
  of its occurrences, with an increment; an error of the client is given by that string.
\<close>

type_synonym errorMap = "string \<Rightarrow> nat"

definition newErrorMap :: errorMap where
  "newErrorMap = (\<lambda>_. 0)"

definition errorMap_add :: "errorMap \<Rightarrow> string \<Rightarrow> errorMap" where
  "errorMap_add m e = m(e := m e + 1)"

text \<open>
  \<^verbatim>\<open>sync.WaitGroup\<close> of the standard library, as far as \<^verbatim>\<open>NewBombardier\<close> uses it. Its state
  is one 64-bit word, the counter in the upper half and the number of waiters in the lower;
  \<^verbatim>\<open>Add(delta)\<close> adds \<^verbatim>\<open>uint64(delta) << 32\<close> to it, reads the counter back as an \<^verbatim>\<open>int32\<close>
  and panics when that is negative. So the counter takes the low 32 bits of \<open>delta\<close>.
  A \<^verbatim>\<open>WaitGroup\<close> is kept as its counter: nothing waits on it before \<^verbatim>\<open>Bombard\<close>.
\<close>

type_synonym WaitGroup = "32 word"

definition WaitGroup_Add :: "WaitGroup \<Rightarrow> int64 \<Rightarrow> fault + WaitGroup" where
  "WaitGroup_Add wg delta =
     (let v = wg + ucast delta
      in if sint v < 0 then Inl (Panic ''sync: negative WaitGroup counter'') else Inr v)"

text \<open>
  The struct \<^verbatim>\<open>Bombardier\<close>, without the fields that none of the modelled functions
  touches (\<^verbatim>\<open>timeTaken\<close>, \<^verbatim>\<open>requests\<close>, \<^verbatim>\<open>doneChan\<close>, \<^verbatim>\<open>rpl\<close>, \<^verbatim>\<open>start\<close>). \<open>workers\<close>
  is the counter of the \<^verbatim>\<open>WaitGroup\<close>.
\<close>

record Bombardier =
  bytesRead :: int64
  bytesWritten :: int64
  req1xx :: uint64
  req2xx :: uint64
  req3xx :: uint64
  req4xx :: uint64
  req5xx :: uint64
  others :: uint64
  Conf :: Config
  Barrier :: completionBarrier
  ratelimiter :: limiter
  workers :: WaitGroup
  latencies :: Histogram
  client_of :: client
  reqs :: int64
  errors :: errorMap
  bar :: ProgressBar
  out :: writer
  template :: string

definition readClientCert :: "externals \<Rightarrow> string \<Rightarrow> string \<Rightarrow> error + string list" where
  "readClientCert x certPath keyPath =
     (if certPath \<noteq> [] \<and> keyPath \<noteq> []
      then (case LoadX509KeyPair x certPath keyPath of
              Inl err \<Rightarrow> Inl err
            | Inr cert \<Rightarrow> Inr [cert])
      else Inr [])"

definition generateTLSConfig :: "externals \<Rightarrow> Config \<Rightarrow> error + tlsConfig" where
  "generateTLSConfig x c =
     (case readClientCert x (CertPath c) (KeyPath c) of
        Inl err \<Rightarrow> Inl err
      | Inr certs \<Rightarrow> Inr \<lparr>InsecureSkipVerify = Insecure c, Certificates = certs\<rparr>)"

definition makeHTTPClient :: "clientTyp \<Rightarrow> clientOpts \<Rightarrow> client" where
  "makeHTTPClient clientType cc =
     (if clientType = nhttp1 then HTTPClient cc
      else if clientType = nhttp2 then HTTPClient (cc\<lparr>HTTP2 := True\<rparr>)
      else FastHTTPClient cc)"

definition prepareTemplate :: "externals \<Rightarrow> Config \<Rightarrow> fault + string" where
  "prepareTemplate x conf =
     (case (case Format conf of
              knownFormat f \<Rightarrow> Inr (knownFormat_template x f)
            | userDefinedTemplate f \<Rightarrow>
                (case ReadFile x f of Inl err \<Rightarrow> Inl (Err err) | Inr bytes \<Rightarrow> Inr bytes)
            | nilFormat \<Rightarrow> Inl (Panic ''format can't be nil at this point, this is a bug''))
      of
        Inl f \<Rightarrow> Inl f
      | Inr templateBytes \<Rightarrow>
          (case template_Parse x templateBytes of
             Inl err \<Rightarrow> Inl (Err err)
           | Inr outputTemplate \<Rightarrow> Inr outputTemplate))"

text \<open>
  \<^verbatim>\<open>NewBombardier\<close>, statement by statement. \<^verbatim>\<open>checkArgs\<close> has a pointer receiver and is
  called on the parameter \<^verbatim>\<open>c\<close>, so what it writes is in \<^verbatim>\<open>c\<close> and in \<^verbatim>\<open>b.Conf\<close>
  afterwards. A \<^verbatim>\<open>nil\<close> pointer that is dereferenced is a panic.
\<close>

definition new_bar :: "Config \<Rightarrow> fault + ProgressBar" where
  "new_bar conf =
     (case (if testType conf = counted
            then (case NumReqs conf of
                    None \<Rightarrow> Inl (Panic ''nil pointer dereference'')
                  | Some n \<Rightarrow> Inr (Some (pb_New64 n)))
            else if testType conf = timed
            then (case Duration conf of
                    None \<Rightarrow> Inl (Panic ''nil pointer dereference'')
                  | Some d \<Rightarrow>
                      Inr (Some ((pb_New64 (word_of_int (quo (sint d) 1000000000)))
                                   \<lparr>ShowCounters := False, ShowPercent := False\<rparr>)))
            else Inr None)
      of
        Inl f \<Rightarrow> Inl f
      | Inr None \<Rightarrow> Inl (Panic ''nil pointer dereference'')
      | Inr (Some pbar) \<Rightarrow> Inr (pbar\<lparr>ManualUpdate := True\<rparr>))"

definition new_barrier :: "externals \<Rightarrow> Config \<Rightarrow> fault + completionBarrier" where
  "new_barrier x conf =
     (if testType conf = counted
      then (case NumReqs conf of
              None \<Rightarrow> Inl (Panic ''nil pointer dereference'')
            | Some n \<Rightarrow> Inr (Counting (newCountingCompletionBarrier n)))
      else (case Duration conf of
              None \<Rightarrow> Inl (Panic ''nil pointer dereference'')
            | Some d \<Rightarrow> map_sum id Timed (newTimedCompletionBarrier (time_Now x) d)))"

definition new_body ::
  "externals \<Rightarrow> Config \<Rightarrow> error + string option \<times> bodyStreamProducer option" where
  "new_body x c =
     (if Stream c
      then (if BodyFilePath c \<noteq> [] then Inr (None, Some (OpenFile (BodyFilePath c)))
            else Inr (None, Some (ReadString (Body c))))
      else (if BodyFilePath c \<noteq> []
            then (case ReadFile x (BodyFilePath c) of
                    Inl err \<Rightarrow> Inl err
                  | Inr bodyBytes \<Rightarrow> Inr (Some bodyBytes, None))
            else Inr (Some (Body c), None)))"

text \<open>
  \<^verbatim>\<open>NewBombardier\<close>. Its last step that can fail is \<^verbatim>\<open>b.workers.Add(int(c.NumConns))\<close>; the
  conversion of the \<^verbatim>\<open>uint64\<close> to \<^verbatim>\<open>int\<close> keeps its 64 bits.
\<close>

definition NewBombardier :: "externals \<Rightarrow> Config \<Rightarrow> fault + Bombardier" where
  "NewBombardier x c0 =
     (case checkArgs x c0 of
        (Some err, _) \<Rightarrow> Inl (Err err)
      | (None, c) \<Rightarrow>
     (case new_bar c of
        Inl f \<Rightarrow> Inl f
      | Inr pbar \<Rightarrow>
     (case new_barrier x c of
        Inl f \<Rightarrow> Inl f
      | Inr barrier \<Rightarrow>
     (case generateTLSConfig x c of
        Inl err \<Rightarrow> Inl (Err err)
      | Inr tlsc \<Rightarrow>
     (case new_body x c of
        Inl err \<Rightarrow> Inl (Err err)
      | Inr (pbody, bsp) \<Rightarrow>
     (case prepareTemplate x c of
        Inl f \<Rightarrow> Inl f
      | Inr tmpl \<Rightarrow>
     (case WaitGroup_Add 0 (NumConns c) of
        Inl f \<Rightarrow> Inl f
      | Inr wg \<Rightarrow>
          Inr \<lparr>bytesRead = 0, bytesWritten = 0,
               req1xx = 0, req2xx = 0, req3xx = 0, req4xx = 0, req5xx = 0, others = 0,
               Conf = c,
               Barrier = barrier,
               ratelimiter = (case Rate c of Some r \<Rightarrow> bucketLimiter r | None \<Rightarrow> nooplimiter),
               workers = wg,
               latencies = Histogram_Default,
               client_of = makeHTTPClient (ClientType c)
                 \<lparr>HTTP2 = False, maxConns = NumConns c, timeout = Timeout c, tlsConf = tlsc,
                  headers = Headers c, url = Url c, http_method = Method c,
                  body = pbody, bodProd = bsp\<rparr>,
               reqs = 0,
               errors = newErrorMap,
               bar = (if \<not> PrintProgress c then pbar\<lparr>Output := Discard, NotPrint := True\<rparr>
                      else pbar),
               out = Stdout,
               template = tmpl\<rparr>)))))))"

text \<open>
  \<^verbatim>\<open>writeStatistics\<close>; the increments of \<^verbatim>\<open>reqs\<close> (under the mutex \<^verbatim>\<open>rpl\<close>) and of the
  chosen counter (atomic) are single steps.
\<close>

definition writeStatistics :: "Bombardier \<Rightarrow> int \<Rightarrow> uint64 \<Rightarrow> Bombardier" where
  "writeStatistics b code msTaken =
     (let b1 = b\<lparr>latencies := Histogram_Increment (latencies b) msTaken\<rparr>;
          b2 = b1\<lparr>reqs := reqs b1 + 1\<rparr>;
          q = quo code 100
      in if q = 1 then b2\<lparr>req1xx := AddUint64 (req1xx b2) 1\<rparr>
         else if q = 2 then b2\<lparr>req2xx := AddUint64 (req2xx b2) 1\<rparr>
         else if q = 3 then b2\<lparr>req3xx := AddUint64 (req3xx b2) 1\<rparr>
         else if q = 4 then b2\<lparr>req4xx := AddUint64 (req4xx b2) 1\<rparr>
         else if q = 5 then b2\<lparr>req5xx := AddUint64 (req5xx b2) 1\<rparr>
         else b2\<lparr>others := AddUint64 (others b2) 1\<rparr>)"

text \<open>
  \<^verbatim>\<open>performSingleRequest\<close>, given what \<^verbatim>\<open>b.client.do()\<close> returned: the status code, the
  time taken and the error (\<open>None\<close> for \<^verbatim>\<open>nil\<close>).
\<close>

definition performSingleRequest ::
  "Bombardier \<Rightarrow> int \<times> uint64 \<times> string option \<Rightarrow> Bombardier" where
  "performSingleRequest b r =
     (case r of (code, msTaken, err) \<Rightarrow>
        writeStatistics
          (case err of None \<Rightarrow> b | Some e \<Rightarrow> b\<lparr>errors := errorMap_add (errors b) e\<rparr>)
          code msTaken)"

text \<open>
  The status classes, and the counter the claim assigns to a quotient \<^verbatim>\<open>code/100\<close>.
\<close>

datatype status_class = Class1xx | Class2xx | Class3xx | Class4xx | Class5xx | ClassOthers

definition status_bucket :: "int \<Rightarrow> status_class" where
  "status_bucket q =
     (if q = 1 then Class1xx else if q = 2 then Class2xx else if q = 3 then Class3xx
      else if q = 4 then Class4xx else if q = 5 then Class5xx else ClassOthers)"

fun counter :: "status_class \<Rightarrow> Bombardier \<Rightarrow> uint64" where
  "counter Class1xx b = req1xx b"
| "counter Class2xx b = req2xx b"
| "counter Class3xx b = req3xx b"
| "counter Class4xx b = req4xx b"
| "counter Class5xx b = req5xx b"
| "counter ClassOthers b = others b"

section \<open>The byte-counting connection (src/unnamed/part\_001)\<close>

text \<open>
  \<^verbatim>\<open>countingConn.Read\<close> and \<^verbatim>\<open>countingConn.Write\<close>, given what the wrapped \<^verbatim>\<open>net.Conn\<close>
  returned (the count \<open>n\<close> and the error) and the value of the total that the conn's pointer
  refers to: the pair returned to the caller, and the total afterwards.
\<close>

definition countingConn_Read ::
  "int \<times> string option \<Rightarrow> int64 \<Rightarrow> (int \<times> string option) \<times> int64" where
  "countingConn_Read r counted_so_far =
     (case r of (n, err) \<Rightarrow>
        ((n, err), if err = None then AddInt64 counted_so_far (word_of_int n) else counted_so_far))"

definition countingConn_Write ::
  "int \<times> string option \<Rightarrow> int64 \<Rightarrow> (int \<times> string option) \<times> int64" where
  "countingConn_Write r counted_so_far =
     (case r of (n, err) \<Rightarrow>
        ((n, err), if err = None then AddInt64 counted_so_far (word_of_int n) else counted_so_far))"


section \<open>A configuration of the test suite\<close>

text \<open>
  The valid configuration of \<^verbatim>\<open>TestCheckArgs\<close> (src/lib/args\_parser\_test.go): 125
  connections, 10000 requests and a duration both set, a two-second timeout, and a
  \<^verbatim>\<open>GET\<close> of \<^verbatim>\<open>http://localhost:8080\<close>. With it, an environment: the sorted method tables, a
  default duration of ten seconds, a URL parser that knows this URL, no files, and a
  template parser that accepts every text.
\<close>

definition test_Config :: Config where
  "test_Config =
     \<lparr>NumConns = 125, NumReqs = Some 10000, Duration = Some 10000000000,
      Url = ''http://localhost:8080'', Method = ''GET'', CertPath = [], KeyPath = [],
      Body = [], BodyFilePath = [], Stream = False, Headers = Some [],
      Timeout = 2000000000, PrintLatencies = False, Insecure = False, Rate = None,
      ClientType = fhttp, PrintIntro = False, PrintProgress = False, PrintResult = False,
      Format = knownFormat ''plain-text''\<rparr>"

definition test_externals :: externals where
  "test_externals =
     \<lparr>httpMethods = [''CONNECT'', ''DELETE'', ''GET'', ''HEAD'', ''OPTIONS'', ''PATCH'',
                     ''POST'', ''PUT'', ''TRACE''],
      cantHaveBody = [''GET'', ''HEAD''],
      defaultTestDuration = 10000000000,
      urlx_Parse = (\<lambda>s. if s = ''http://localhost:8080''
                         then Inr \<lparr>Scheme = ''http'', Host = ''localhost:8080'',
                                   String = ''http://localhost:8080''\<rparr>
                         else Inl (libraryError ''parse error'')),
      LoadX509KeyPair = (\<lambda>certFile keyFile. Inl (libraryError ''no such file or directory'')),
      ReadFile = (\<lambda>name. Inl (libraryError ''no such file or directory'')),
      knownFormat_template = (\<lambda>name. ''Statistics''),
      template_Parse = (\<lambda>text. Inr text),
      time_Now = 0\<rparr>"

text \<open>
  A result of \<^verbatim>\<open>NewBombardier\<close> with the \<^verbatim>\<open>Duration\<close> of its configuration blanked, to
  compare two results in everything else.
\<close>

definition forget_Duration :: "fault + Bombardier \<Rightarrow> fault + Bombardier" where
  "forget_Duration r = map_sum id (\<lambda>b. b\<lparr>Conf := (Conf b)\<lparr>Duration := None\<rparr>\<rparr>) r"

text \<open>The bombardier that \<^verbatim>\<open>NewBombardier\<close> makes from this configuration.\<close>

definition test_Bombardier :: Bombardier where
  "test_Bombardier =
     \<lparr>bytesRead = 0, bytesWritten = 0,
      req1xx = 0, req2xx = 0, req3xx = 0, req4xx = 0, req5xx = 0, others = 0,
      Conf = test_Config,
      Barrier = Counting (newCountingCompletionBarrier 10000),
      ratelimiter = nooplimiter,
      workers = 125,
      latencies = Histogram_Default,
      client_of = FastHTTPClient
        \<lparr>HTTP2 = False, maxConns = 125, timeout = 2000000000,
         tlsConf = \<lparr>InsecureSkipVerify = False, Certificates = []\<rparr>,
         headers = Some [], url = ''http://localhost:8080'', http_method = ''GET'',
         body = Some [], bodProd = None\<rparr>,
      reqs = 0,
      errors = newErrorMap,
      bar = \<lparr>Total = 10000, ShowCounters = True, ShowPercent = True, ManualUpdate = True,
             NotPrint = True, Output = Discard\<rparr>,
      out = Stdout,
      template = ''Statistics''\<rparr>"


section \<open>The workers of a counted run (src/lib/config.go, \<^verbatim>\<open>worker\<close> and \<^verbatim>\<open>Bombard\<close>)\<close>

text \<open>
  \<^verbatim>\<open>Bombard\<close> starts \<^verbatim>\<open>NumConns\<close> goroutines that all run \<^verbatim>\<open>worker\<close> on the one barrier. A
  run is an interleaving of their atomic steps. \<^verbatim>\<open>tryGrabWork\<close> of the counting barrier is
  two steps, the \<^verbatim>\<open>select\<close> on the done channel and the \<^verbatim>\<open>AddUint64\<close> on \<^verbatim>\<open>reqsGrabbed\<close>, and
  \<^verbatim>\<open>jobDone\<close> is two, the \<^verbatim>\<open>AddUint64\<close> on \<^verbatim>\<open>reqsDone\<close> and the \<^verbatim>\<open>closeOnce.Do\<close>; other
  goroutines may run between them. A position is the step a worker makes next.
\<close>

datatype position =
    AtSelect
  | AtGrabAdd
  | AtPace
  | AtRequest
  | AtDoneAdd
  | AtCloseOnce
  | Returned

text \<open>
  What \<^verbatim>\<open>pace\<close> returns. The limiters are not among the sources; the answer of each call is
  given with the step that makes it.
\<close>

datatype pace_result = cont | brk

text \<open>
  The state of a run: the barrier and the position of every worker. \<open>grabbed_true\<close> and
  \<open>issued\<close> are history variables, which the code does not have: the number of
  \<^verbatim>\<open>tryGrabWork\<close> calls that have returned true, and the number of \<^verbatim>\<open>performSingleRequest\<close>
  calls, each of which is one \<^verbatim>\<open>client.do\<close>.
\<close>

record pool =
  barrier :: countingCompletionBarrier
  positions :: "position list"
  grabbed_true :: nat
  issued :: nat

definition Bombard_pool :: "uint64 \<Rightarrow> nat \<Rightarrow> pool" where
  "Bombard_pool n conns =
     \<lparr>barrier = newCountingCompletionBarrier n, positions = replicate conns AtSelect,
      grabbed_true = 0, issued = 0\<rparr>"

definition worker_step :: "pool \<Rightarrow> nat \<Rightarrow> pace_result \<Rightarrow> fault + pool" where
  "worker_step s i r =
     (if length (positions s) \<le> i then Inr s
      else (case positions s ! i of
        AtSelect \<Rightarrow>
          Inr (s\<lparr>positions := (positions s)
                 [i := if is_closed (doneChan (barrier s)) then Returned else AtGrabAdd]\<rparr>)
      | AtGrabAdd \<Rightarrow>
          (let reqsDone' = AddUint64 (reqsGrabbed (barrier s)) 1;
               b' = (barrier s)\<lparr>reqsGrabbed := reqsDone'\<rparr>
           in if reqsDone' \<le> numReqs (barrier s)
              then Inr (s\<lparr>barrier := b', positions := (positions s)[i := AtPace],
                          grabbed_true := grabbed_true s + 1\<rparr>)
              else Inr (s\<lparr>barrier := b', positions := (positions s)[i := Returned]\<rparr>))
      | AtPace \<Rightarrow>
          Inr (s\<lparr>positions := (positions s)[i := if r = brk then Returned else AtRequest]\<rparr>)
      | AtRequest \<Rightarrow>
          Inr (s\<lparr>positions := (positions s)[i := AtDoneAdd], issued := issued s + 1\<rparr>)
      | AtDoneAdd \<Rightarrow>
          (let reqsDone' = AddUint64 (reqsDone (barrier s)) 1;
               b' = (barrier s)\<lparr>reqsDone := reqsDone'\<rparr>
           in Inr (s\<lparr>barrier := b',
                      positions := (positions s)
                        [i := if reqsDone' = numReqs (barrier s) then AtCloseOnce else AtSelect]\<rparr>))
      | AtCloseOnce \<Rightarrow>
          (case closeOnce_Do_close (barrier s) of
             Inl f \<Rightarrow> Inl f
           | Inr b' \<Rightarrow> Inr (s\<lparr>barrier := b', positions := (positions s)[i := AtSelect]\<rparr>))
      | Returned \<Rightarrow> Inr s))"

text \<open>
  An event of a run: a step of the worker with the given index (with the answer of the
  limiter, read only when the step is the call of \<^verbatim>\<open>pace\<close>), or \<^verbatim>\<open>Cancel\<close> called from
  outside, as the signal handler of \<^verbatim>\<open>main\<close> does.
\<close>

datatype event = Step nat pace_result | ExternalCancel

fun exec :: "pool \<Rightarrow> event \<Rightarrow> fault + pool" where
  "exec s (Step i r) = worker_step s i r"
| "exec s ExternalCancel =
     (case counting_Cancel (barrier s) of
        Inl f \<Rightarrow> Inl f
      | Inr b' \<Rightarrow> Inr (s\<lparr>barrier := b'\<rparr>))"

fun run :: "pool \<Rightarrow> event list \<Rightarrow> fault + pool" where
  "run s [] = Inr s"
| "run s (e # es) = (case exec s e of Inl f \<Rightarrow> Inl f | Inr s' \<Rightarrow> run s' es)"

text \<open>
  A run that is not cancelled and in which the limiter never returns \<^verbatim>\<open>brk\<close>; a run in which
  every step is one of a worker that has not returned; and a run that has ended.
\<close>

fun undisturbed :: "event list \<Rightarrow> bool" where
  "undisturbed [] = True"
| "undisturbed (Step i r # es) = (r = cont \<and> undisturbed es)"
| "undisturbed (ExternalCancel # es) = False"

fun is_Step :: "event \<Rightarrow> bool" where
  "is_Step (Step i r) = True"
| "is_Step ExternalCancel = False"

definition can_step :: "pool \<Rightarrow> event \<Rightarrow> bool" where
  "can_step s e =
     (case e of
        Step i r \<Rightarrow> i < length (positions s) \<and> positions s ! i \<noteq> Returned
      | ExternalCancel \<Rightarrow> True)"

fun effective :: "pool \<Rightarrow> event list \<Rightarrow> bool" where
  "effective s [] = True"
| "effective s (e # es) =
     (can_step s e \<and> (case exec s e of Inl f \<Rightarrow> True | Inr s' \<Rightarrow> effective s' es))"

definition all_returned :: "pool \<Rightarrow> bool" where
  "all_returned s = list_all (\<lambda>p. p = Returned) (positions s)"

text \<open>The number of workers at a position.\<close>

definition workers_at :: "pool \<Rightarrow> position \<Rightarrow> nat" where
  "workers_at s p = count_list (positions s) p"

text \<open>
  What holds in every state of a run for \<open>K\<close> requests with \<open>N\<close> workers when
  \<open>K + N < 2^64\<close>: the counter \<^verbatim>\<open>reqsGrabbed\<close> has not wrapped around, it exceeds the number of
  successful grabs by at most the number of workers that have returned, and once it does
  exceed it all \<open>K\<close> grabs have been handed out.
\<close>

definition pool_inv :: "pool \<Rightarrow> bool" where
  "pool_inv s \<longleftrightarrow>
     once_inv (barrier s)
     \<and> unat (numReqs (barrier s)) + length (positions s) < 2 ^ 64
     \<and> grabbed_true s \<le> unat (numReqs (barrier s))
     \<and> grabbed_true s \<le> unat (reqsGrabbed (barrier s))
     \<and> unat (reqsGrabbed (barrier s)) \<le> grabbed_true s + workers_at s Returned
     \<and> (grabbed_true s < unat (reqsGrabbed (barrier s))
          \<longrightarrow> grabbed_true s = unat (numReqs (barrier s)))"

text \<open>
  What holds besides in every state of a run that is not cancelled and whose limiter never
  breaks: every successful grab is before its \<^verbatim>\<open>pace\<close>, before its request, or has been
  issued; every issued request is before its \<^verbatim>\<open>AddUint64\<close> on \<^verbatim>\<open>reqsDone\<close> or counted there;
  the channel is closed, or about to be, only after \<open>K\<close> jobs are done; and a worker has
  returned only if the channel is closed or all \<open>K\<close> grabs have been handed out.
\<close>

definition flow_inv :: "pool \<Rightarrow> bool" where
  "flow_inv s \<longleftrightarrow>
     grabbed_true s = issued s + workers_at s AtPace + workers_at s AtRequest
     \<and> issued s = unat (reqsDone (barrier s)) + workers_at s AtDoneAdd
     \<and> (is_closed (doneChan (barrier s)) \<or> 0 < workers_at s AtCloseOnce
          \<longrightarrow> unat (numReqs (barrier s)) \<le> unat (reqsDone (barrier s)))
     \<and> (0 < workers_at s Returned
          \<longrightarrow> is_closed (doneChan (barrier s))
              \<or> grabbed_true s = unat (numReqs (barrier s)))"

text \<open>
  The measure that every step of a worker lowers: six for each grab not yet handed out,
  and for each worker the number of steps it is from the end of its turn.
\<close>

fun rank :: "position \<Rightarrow> nat" where
  "rank AtPace = 6"
| "rank AtRequest = 5"
| "rank AtDoneAdd = 4"
| "rank AtCloseOnce = 3"
| "rank AtSelect = 2"
| "rank AtGrabAdd = 1"
| "rank Returned = 0"

definition steps_left :: "pool \<Rightarrow> nat" where
  "steps_left s =
     6 * (unat (numReqs (barrier s)) - grabbed_true s) + sum_list (map rank (positions s))"

text \<open>
  One turn of worker \<open>i\<close> through the loop of \<^verbatim>\<open>worker\<close> with nothing in between: the
  \<^verbatim>\<open>select\<close>, the grab, \<^verbatim>\<open>pace\<close>, the request, and the \<^verbatim>\<open>AddUint64\<close> of \<^verbatim>\<open>jobDone\<close>.
\<close>

definition full_turn :: "nat \<Rightarrow> event list" where
  "full_turn i = [Step i cont, Step i cont, Step i cont, Step i cont, Step i cont]"


section \<open>Properties of headers.go\<close>

lemma IndexByte_None: "IndexByte s c = None \<longleftrightarrow> c \<notin> set s"
  by (induction s) auto

lemma IndexByte_Some:
  "IndexByte s c = Some m \<Longrightarrow>
     take m s = takeWhile (\<lambda>x. x \<noteq> c) s \<and> drop (Suc m) s = tl (dropWhile (\<lambda>x. x \<noteq> c) s)"
proof (induction s arbitrary: m)
  case Nil
  then show ?case by simp
next
  case (Cons x xs)
  show ?case
  proof (cases "x = c")
    case True
    with Cons.prems show ?thesis by simp
  next
    case False
    with Cons.prems obtain k where k: "IndexByte xs c = Some k" "m = Suc k"
      by auto
    with Cons.IH [of k] False show ?thesis by simp
  qed
qed

lemma SplitN_2_no_sep:
  assumes "c \<notin> set s"
  shows "SplitN s c 2 = [s]"
proof (cases s)
  case Nil
  then show ?thesis by (simp add: SplitN_def)
next
  case (Cons x xs)
  then have "min 2 (length s + 1) - 1 = Suc 0" by simp
  with assms show ?thesis
    by (simp add: SplitN_def IndexByte_None [THEN iffD2])
qed

lemma SplitN_2_sep:
  assumes "c \<in> set s"
  shows "SplitN s c 2 = [takeWhile (\<lambda>x. x \<noteq> c) s, tl (dropWhile (\<lambda>x. x \<noteq> c) s)]"
proof -
  from assms have "s \<noteq> []" by auto
  then have n: "min 2 (length s + 1) - 1 = Suc 0"
    by (cases s) simp_all
  from assms obtain m where m: "IndexByte s c = Some m"
    using IndexByte_None [of s c] by (cases "IndexByte s c") auto
  from IndexByte_Some [OF m] m n show ?thesis
    by (simp add: SplitN_def)
qed

lemma Trim_space: "Trim s '' '' = strip_spaces s"
  by (simp add: Trim_def TrimLeft_def TrimRight_def strip_spaces_def)

lemma HeadersList_Set_sep:
  "CHR '':'' \<in> set v \<Longrightarrow> HeadersList_Set h v = (None, h @ [header_of v])"
  by (simp add: HeadersList_Set_def SplitN_2_sep Trim_space header_of_def)

lemma HeadersList_Set_no_sep:
  "CHR '':'' \<notin> set v \<Longrightarrow> HeadersList_Set h v = (Some errInvalidHeaderFormat, h)"
  by (simp add: HeadersList_Set_def SplitN_2_no_sep)

lemma Set_each_all_sep:
  "(\<And>v. v \<in> set vs \<Longrightarrow> CHR '':'' \<in> set v) \<Longrightarrow>
     Set_each h vs = (replicate (length vs) None, h @ map header_of vs)"
  by (induction vs arbitrary: h) (simp_all add: HeadersList_Set_sep)

lemma strip_spaces_decomp:
  "\<exists>a b. s = replicate a (CHR '' '') @ strip_spaces s @ replicate b (CHR '' '')"
proof -
  let ?sp = "\<lambda>c. c = CHR '' ''"
  have tw: "takeWhile ?sp xs = replicate (length (takeWhile ?sp xs)) (CHR '' '')" for xs
    by (induction xs) auto
  let ?m = "dropWhile ?sp s"
  have 1: "s = takeWhile ?sp s @ ?m" by simp
  have "rev ?m = takeWhile ?sp (rev ?m) @ dropWhile ?sp (rev ?m)" by simp
  then have "?m = rev (dropWhile ?sp (rev ?m)) @ rev (takeWhile ?sp (rev ?m))"
    by (metis rev_append rev_rev_ident)
  then have 2: "?m = strip_spaces s @ rev (takeWhile ?sp (rev ?m))"
    by (simp add: strip_spaces_def)
  have 3: "rev (takeWhile ?sp (rev ?m)) = replicate (length (takeWhile ?sp (rev ?m))) (CHR '' '')"
    using tw [of "rev ?m"] by (metis rev_replicate)
  from 1 2 3 have "s = replicate (length (takeWhile ?sp s)) (CHR '' '') @ strip_spaces s
      @ replicate (length (takeWhile ?sp (rev ?m))) (CHR '' '')"
    using tw [of s] by metis
  then show ?thesis by blast
qed

lemma strip_spaces_ends:
  "strip_spaces s = [] \<or> (hd (strip_spaces s) \<noteq> CHR '' '' \<and> last (strip_spaces s) \<noteq> CHR '' '')"
proof (cases "strip_spaces s = []")
  case True
  then show ?thesis by simp
next
  case False
  let ?sp = "\<lambda>c. c = CHR '' ''"
  let ?m = "dropWhile ?sp s"
  let ?r = "dropWhile ?sp (rev ?m)"
  from False have r: "?r \<noteq> []" by (simp add: strip_spaces_def)
  then have hr: "hd ?r \<noteq> CHR '' ''" using hd_dropWhile [of ?sp "rev ?m"] by simp
  from r have l: "last (strip_spaces s) \<noteq> CHR '' ''"
    using hr by (simp add: strip_spaces_def last_rev)
  have m: "?m \<noteq> []"
  proof
    assume a: "?m = []"
    have "?r = []" unfolding a by simp
    with r show False by contradiction
  qed
  then have hm: "hd ?m \<noteq> CHR '' ''" using hd_dropWhile [of ?sp s] by simp
  have "rev ?m = takeWhile ?sp (rev ?m) @ ?r" by simp
  then have "?m = rev ?r @ rev (takeWhile ?sp (rev ?m))"
    by (metis rev_append rev_rev_ident)
  then have "hd ?m = hd (rev ?r)" using r by (metis hd_append2 rev_is_Nil_conv)
  with hm have "hd (strip_spaces s) \<noteq> CHR '' ''" by (simp add: strip_spaces_def)
  with l show ?thesis by simp
qed

text \<open>
  C9. A \<^verbatim>\<open>HeadersList.Set\<close> call whose input contains a colon returns no error and puts
  exactly one header at the end of the list: its key is the text before the first colon,
  unchanged, and its value is the text after that colon without the spaces around it (the
  value is what remains of that text between a run of leading and a run of trailing spaces,
  and it neither starts nor ends with a space). A call whose input has no colon returns
  \<^verbatim>\<open>errInvalidHeaderFormat\<close> and leaves the list as it was. Repeated calls with inputs that
  all contain a colon therefore extend the list by their headers in call order, duplicates
  included.
\<close>

theorem HeadersList_Set_appends_one_header:
  "(if CHR '':'' \<in> set v
    then HeadersList_Set h v = (None, h @ [header_of v])
      \<and> key (header_of v) = takeWhile (\<lambda>c. c \<noteq> CHR '':'') v
      \<and> (\<exists>a b. tl (dropWhile (\<lambda>c. c \<noteq> CHR '':'') v)
            = replicate a (CHR '' '') @ val (header_of v) @ replicate b (CHR '' ''))
      \<and> (val (header_of v) = []
          \<or> (hd (val (header_of v)) \<noteq> CHR '' '' \<and> last (val (header_of v)) \<noteq> CHR '' ''))
    else HeadersList_Set h v = (Some errInvalidHeaderFormat, h))
   \<and> (if list_all (\<lambda>v. CHR '':'' \<in> set v) vs
      then Set_each h vs = (replicate (length vs) None, h @ map header_of vs)
      else True)"
proof -
  have one: "CHR '':'' \<in> set v \<Longrightarrow> HeadersList_Set h v = (None, h @ [header_of v])"
    by (rule HeadersList_Set_sep)
  have k: "key (header_of v) = takeWhile (\<lambda>c. c \<noteq> CHR '':'') v"
    by (simp add: header_of_def)
  have d: "\<exists>a b. tl (dropWhile (\<lambda>c. c \<noteq> CHR '':'') v)
            = replicate a (CHR '' '') @ val (header_of v) @ replicate b (CHR '' '')"
    using strip_spaces_decomp [of "tl (dropWhile (\<lambda>c. c \<noteq> CHR '':'') v)"]
    by (simp add: header_of_def)
  have e: "val (header_of v) = []
          \<or> (hd (val (header_of v)) \<noteq> CHR '' '' \<and> last (val (header_of v)) \<noteq> CHR '' '')"
    using strip_spaces_ends [of "tl (dropWhile (\<lambda>c. c \<noteq> CHR '':'') v)"]
    by (simp add: header_of_def)
  have none: "CHR '':'' \<notin> set v \<Longrightarrow> HeadersList_Set h v = (Some errInvalidHeaderFormat, h)"
    by (rule HeadersList_Set_no_sep)
  have many: "list_all (\<lambda>v. CHR '':'' \<in> set v) vs \<Longrightarrow>
      Set_each h vs = (replicate (length vs) None, h @ map header_of vs)"
    by (rule Set_each_all_sep) (simp add: list_all_iff)
  from one k d e none many show ?thesis by presburger
qed

theorem HeadersList_Set_appends_one_header_witness:
  "HeadersList_Set [\<lparr>key = ''Accept'', val = ''*/*''\<rparr>] ''X-Id:  a: b ''
     = (None, [\<lparr>key = ''Accept'', val = ''*/*''\<rparr>, \<lparr>key = ''X-Id'', val = ''a: b''\<rparr>])
   \<and> HeadersList_Set [\<lparr>key = ''Accept'', val = ''*/*''\<rparr>] ''X-Id'' =
       (Some errInvalidHeaderFormat, [\<lparr>key = ''Accept'', val = ''*/*''\<rparr>])
   \<and> Set_each [] [''A: 1'', ''B:2'', ''A: 1''] =
       ([None, None, None],
        [\<lparr>key = ''A'', val = ''1''\<rparr>, \<lparr>key = ''B'', val = ''2''\<rparr>, \<lparr>key = ''A'', val = ''1''\<rparr>])"
proof -
  let ?h = "[\<lparr>key = ''Accept'', val = ''*/*''\<rparr>]"
  have c1: "CHR '':'' \<in> set ''X-Id:  a: b ''" by simp
  have c2: "CHR '':'' \<notin> set ''X-Id''" by simp
  have c3: "list_all (\<lambda>v. CHR '':'' \<in> set v) [''A: 1'', ''B:2'', ''A: 1'']" by simp
  have h1: "header_of ''X-Id:  a: b '' = \<lparr>key = ''X-Id'', val = ''a: b''\<rparr>"
    by (simp add: header_of_def strip_spaces_def)
  have h2: "map header_of [''A: 1'', ''B:2'', ''A: 1''] =
      [\<lparr>key = ''A'', val = ''1''\<rparr>, \<lparr>key = ''B'', val = ''2''\<rparr>, \<lparr>key = ''A'', val = ''1''\<rparr>]"
    by (simp add: header_of_def strip_spaces_def)
  note t1 = HeadersList_Set_appends_one_header
      [of "''X-Id:  a: b ''" ?h "[''A: 1'', ''B:2'', ''A: 1'']"]
  note t2 = HeadersList_Set_appends_one_header [of "''X-Id''" ?h "[]"]
  from t1 c1 have a: "HeadersList_Set ?h ''X-Id:  a: b '' = (None, ?h @ [header_of ''X-Id:  a: b ''])"
    by presburger
  from HeadersList_Set_appends_one_header [of "''X-Id''" "[]" "[''A: 1'', ''B:2'', ''A: 1'']"] c3
  have b: "Set_each [] [''A: 1'', ''B:2'', ''A: 1''] =
      (replicate (length [''A: 1'', ''B:2'', ''A: 1'']) None, [] @ map header_of [''A: 1'', ''B:2'', ''A: 1''])"
    by presburger
  from t2 c2 have c: "HeadersList_Set ?h ''X-Id'' = (Some errInvalidHeaderFormat, ?h)"
    by presburger
  from a b c show ?thesis unfolding h1 h2 by simp
qed

section \<open>Properties of the completion barriers\<close>

lemma closeOnce_Do_close_eq:
  assumes "once_inv c"
  shows "closeOnce_Do_close c
           = Inr (c\<lparr>doneChan := \<lparr>is_closed = True, closes = 1\<rparr>, closeOnce := True\<rparr>)"
proof (cases "closeOnce c")
  case True
  with assms have "doneChan c = \<lparr>is_closed = True, closes = 1\<rparr>"
    by (simp add: once_inv_def)
  with True have "c\<lparr>doneChan := \<lparr>is_closed = True, closes = 1\<rparr>, closeOnce := True\<rparr> = c"
    by (cases c) simp
  with True show ?thesis
    by (simp add: closeOnce_Do_close_def)
next
  case False
  with assms have "\<not> is_closed (doneChan c)" "closes (doneChan c) = 0"
    by (simp_all add: once_inv_def)
  with False show ?thesis
    by (simp add: closeOnce_Do_close_def close_chan_def)
qed

lemma closeOnce_Do_close_inv:
  assumes "once_inv c"
  shows "\<exists>c'. closeOnce_Do_close c = Inr c' \<and> once_inv c' \<and> is_closed (doneChan c')
           \<and> closes (doneChan c') = 1"
  using closeOnce_Do_close_eq [OF assms] by (simp add: once_inv_def)

lemma once_inv_new_counting: "once_inv (newCountingCompletionBarrier n)"
  by (simp add: once_inv_def newCountingCompletionBarrier_def make_chan_def)

lemma once_inv_new_timed: "newTimedCompletionBarrier now d = Inr t \<Longrightarrow> once_inv t"
  by (auto simp: once_inv_def newTimedCompletionBarrier_def make_chan_def split: if_splits)

lemma once_inv_update_counters:
  "once_inv (c\<lparr>reqsDone := d\<rparr>) = once_inv c"
  "once_inv (c\<lparr>reqsGrabbed := g\<rparr>) = once_inv c"
  by (simp_all add: once_inv_def)

lemma counting_tryGrabWork_inv:
  "once_inv c \<Longrightarrow> once_inv (snd (counting_tryGrabWork c))"
  by (simp add: counting_tryGrabWork_def Let_def once_inv_update_counters)

lemma counting_jobDone_inv:
  assumes "once_inv c"
  shows "\<exists>c'. counting_jobDone c = Inr c' \<and> once_inv c'"
proof -
  let ?c = "c\<lparr>reqsDone := AddUint64 (reqsDone c) 1\<rparr>"
  from assms have "once_inv ?c" by (simp add: once_inv_update_counters)
  from closeOnce_Do_close_inv [OF this] this show ?thesis
    by (auto simp: counting_jobDone_def Let_def)
qed

text \<open>
  The invariant of a barrier value: \<open>once_inv\<close> of the struct behind the interface.
\<close>

lemma call_inv:
  assumes "case b of Counting c \<Rightarrow> once_inv c | Timed t \<Rightarrow> once_inv t"
  shows "\<exists>b'. call b x = Inr b'
           \<and> (case b' of Counting c \<Rightarrow> once_inv c | Timed t \<Rightarrow> once_inv t)
           \<and> (case b of Counting _ \<Rightarrow> (\<exists>c'. b' = Counting c') | Timed _ \<Rightarrow> (\<exists>t'. b' = Timed t'))"
proof (cases b)
  case (Counting c)
  with assms have i: "once_inv c" by simp
  show ?thesis
  proof (cases x)
    case CallTryGrabWork
    with Counting counting_tryGrabWork_inv [OF i] show ?thesis
      by (auto split: prod.splits)
  next
    case CallJobDone
    with Counting counting_jobDone_inv [OF i] show ?thesis by auto
  next
    case CallCancel
    with Counting closeOnce_Do_close_inv [OF i] show ?thesis
      by (auto simp: counting_Cancel_def)
  next
    case CallCompleted
    with Counting i show ?thesis by simp
  next
    case Deadline
    with Counting i show ?thesis by simp
  qed
next
  case (Timed t)
  with assms have i: "once_inv t" by simp
  show ?thesis
  proof (cases x)
    case CallTryGrabWork
    with Timed i show ?thesis by (simp add: timed_tryGrabWork_def)
  next
    case CallJobDone
    with Timed i show ?thesis by (simp add: timed_jobDone_def)
  next
    case CallCancel
    with Timed closeOnce_Do_close_inv [OF i] show ?thesis
      by (auto simp: timed_Cancel_def)
  next
    case CallCompleted
    with Timed i show ?thesis by simp
  next
    case Deadline
    with Timed closeOnce_Do_close_inv [OF i] show ?thesis
      by (auto simp: timed_deadline_def)
  qed
qed

lemma calls_inv:
  assumes "case b of Counting c \<Rightarrow> once_inv c | Timed t \<Rightarrow> once_inv t"
  shows "\<exists>b'. calls b xs = Inr b'
           \<and> (case b' of Counting c \<Rightarrow> once_inv c | Timed t \<Rightarrow> once_inv t)
           \<and> (case b of Counting _ \<Rightarrow> (\<exists>c'. b' = Counting c') | Timed _ \<Rightarrow> (\<exists>t'. b' = Timed t'))"
  using assms
proof (induction xs arbitrary: b)
  case Nil
  then show ?case by (cases b) simp_all
next
  case (Cons x xs)
  from call_inv [OF Cons.prems, of x] obtain b1 where
    b1: "call b x = Inr b1"
      "case b1 of Counting c \<Rightarrow> once_inv c | Timed t \<Rightarrow> once_inv t"
      "case b of Counting _ \<Rightarrow> (\<exists>c'. b1 = Counting c') | Timed _ \<Rightarrow> (\<exists>t'. b1 = Timed t')"
    by blast
  from Cons.IH [OF b1(2)] obtain b' where
    b': "calls b1 xs = Inr b'"
      "case b' of Counting c \<Rightarrow> once_inv c | Timed t \<Rightarrow> once_inv t"
      "case b1 of Counting _ \<Rightarrow> (\<exists>c'. b' = Counting c') | Timed _ \<Rightarrow> (\<exists>t'. b' = Timed t')"
    by blast
  from b1(3) b'(3) have
    "case b of Counting _ \<Rightarrow> (\<exists>c'. b' = Counting c') | Timed _ \<Rightarrow> (\<exists>t'. b' = Timed t')"
    by (cases b) auto
  with b1(1) b'(1,2) show ?case by simp
qed

lemma once_inv_closes_le: "once_inv c \<Longrightarrow> closes (doneChan c) \<le> 1"
  by (simp add: once_inv_def)

lemma word_succ_le_iff:
  fixes x y :: "'a::len word"
  shows "x + 1 \<le> y \<longleftrightarrow> x < y \<or> x = - 1"
proof (cases "x = - 1")
  case True
  then show ?thesis by simp
next
  case False
  then have "x + 1 \<noteq> 0"
    by (metis add.commute add_eq_0_iff)
  then have "unat (x + 1) = Suc (unat x)"
    by (metis add.commute unatSuc)
  with False show ?thesis
    by (simp add: word_le_nat_alt word_less_nat_alt Suc_le_eq)
qed


lemma tryGrabWork_repeated:
  "\<not> is_closed (doneChan c) \<Longrightarrow>
     calls (Counting c) (replicate n CallTryGrabWork)
       = Inr (Counting (c\<lparr>reqsGrabbed := reqsGrabbed c + of_nat n\<rparr>))"
proof (induction n arbitrary: c)
  case 0
  then show ?case by simp
next
  case (Suc n)
  let ?c = "c\<lparr>reqsGrabbed := reqsGrabbed c + 1\<rparr>"
  from Suc.prems have "\<not> is_closed (doneChan ?c)" by simp
  from Suc.IH [OF this] Suc.prems show ?case
    by (simp add: counting_tryGrabWork_def AddUint64_def Let_def add.assoc)
qed

text \<open>
  C2, as amended. \<^verbatim>\<open>tryGrabWork\<close> returns false, and changes nothing, once the done channel
  is closed. While it is open, the counting barrier adds one to \<^verbatim>\<open>reqsGrabbed\<close> (modulo
  \<open>2^64\<close>) and returns whether the new value is at most \<^verbatim>\<open>numReqs\<close>: that is true exactly when
  the value before the increment was below \<^verbatim>\<open>numReqs\<close>, or was \<open>2^64 - 1\<close>, from which the
  increment wraps to 0. The timed barrier returns true while the channel is open.
\<close>

theorem tryGrabWork_result:
  "counting_tryGrabWork c =
     (if is_closed (doneChan c) then (False, c)
      else (reqsGrabbed c < numReqs c \<or> reqsGrabbed c = - 1,
            c\<lparr>reqsGrabbed := reqsGrabbed c + 1\<rparr>))
   \<and> unat (reqsGrabbed c + 1) = (unat (reqsGrabbed c) + 1) mod 2 ^ 64
   \<and> timed_tryGrabWork t = (\<not> is_closed (doneChan t), t)"
proof -
  have "(reqsGrabbed c + 1 \<le> numReqs c) = (reqsGrabbed c < numReqs c \<or> reqsGrabbed c = - 1)"
    by (rule word_succ_le_iff)
  then have a: "counting_tryGrabWork c =
     (if is_closed (doneChan c) then (False, c)
      else (reqsGrabbed c < numReqs c \<or> reqsGrabbed c = - 1,
            c\<lparr>reqsGrabbed := reqsGrabbed c + 1\<rparr>))"
    by (simp add: counting_tryGrabWork_def AddUint64_def Let_def)
  have b: "unat (reqsGrabbed c + 1) = (unat (reqsGrabbed c) + 1) mod 2 ^ 64"
    by (simp add: unat_word_ariths)
  have c: "timed_tryGrabWork t = (\<not> is_closed (doneChan t), t)"
    by (simp add: timed_tryGrabWork_def)
  from a b c show ?thesis by blast
qed

theorem tryGrabWork_result_witness:
  "counting_tryGrabWork
      \<lparr>doneChan = make_chan, closeOnce = False, numReqs = 3, reqsGrabbed = 2, reqsDone = 1\<rparr>
     = (True, \<lparr>doneChan = make_chan, closeOnce = False, numReqs = 3, reqsGrabbed = 3, reqsDone = 1\<rparr>)
   \<and> counting_tryGrabWork
      \<lparr>doneChan = make_chan, closeOnce = False, numReqs = 3, reqsGrabbed = 3, reqsDone = 1\<rparr>
     = (False, \<lparr>doneChan = make_chan, closeOnce = False, numReqs = 3, reqsGrabbed = 4, reqsDone = 1\<rparr>)
   \<and> timed_tryGrabWork \<lparr>doneChan = make_chan, closeOnce = False, start = 0, duration = 5\<rparr>
     = (True, \<lparr>doneChan = make_chan, closeOnce = False, start = 0, duration = 5\<rparr>)"
  using tryGrabWork_result
      [of "\<lparr>doneChan = make_chan, closeOnce = False, numReqs = 3, reqsGrabbed = 2, reqsDone = 1\<rparr>"
          "\<lparr>doneChan = make_chan, closeOnce = False, start = 0, duration = 5\<rparr>"]
    tryGrabWork_result
      [of "\<lparr>doneChan = make_chan, closeOnce = False, numReqs = 3, reqsGrabbed = 3, reqsDone = 1\<rparr>"
          "\<lparr>doneChan = make_chan, closeOnce = False, start = 0, duration = 5\<rparr>"]
  by (simp add: make_chan_def)

text \<open>
  The claim as stated fails on a counting barrier for 5 requests after \<open>2^64 - 1\<close> calls
  of \<^verbatim>\<open>tryGrabWork\<close>: the counter stands at \<open>2^64 - 1\<close>, which is not below 5, and the next
  call returns true.
\<close>

theorem tryGrabWork_wraps_counterexample:
  "calls (Counting (newCountingCompletionBarrier 5)) (replicate (2 ^ 64 - 1) CallTryGrabWork)
     = Inr (Counting \<lparr>doneChan = make_chan, closeOnce = False, numReqs = 5,
                       reqsGrabbed = 18446744073709551615, reqsDone = 0\<rparr>)
   \<and> fst (counting_tryGrabWork
            \<lparr>doneChan = make_chan, closeOnce = False, numReqs = 5,
               reqsGrabbed = 18446744073709551615, reqsDone = 0\<rparr>)
   \<and> \<not> ((18446744073709551615 :: uint64) < 5)"
proof -
  have o: "\<not> is_closed (doneChan (newCountingCompletionBarrier 5))"
    by (simp add: newCountingCompletionBarrier_def make_chan_def)
  have n: "(of_nat (2 ^ 64 - 1) :: uint64) = 18446744073709551615"
    by simp
  have 1: "calls (Counting (newCountingCompletionBarrier 5)) (replicate (2 ^ 64 - 1) CallTryGrabWork)
     = Inr (Counting \<lparr>doneChan = make_chan, closeOnce = False, numReqs = 5,
                       reqsGrabbed = 18446744073709551615, reqsDone = 0\<rparr>)"
    unfolding tryGrabWork_repeated [OF o] n
    by (simp add: newCountingCompletionBarrier_def)
  have 2: "fst (counting_tryGrabWork
            \<lparr>doneChan = make_chan, closeOnce = False, numReqs = 5,
               reqsGrabbed = 18446744073709551615, reqsDone = 0\<rparr>)"
    by (simp add: counting_tryGrabWork_def AddUint64_def make_chan_def)
  have 3: "\<not> ((18446744073709551615 :: uint64) < 5)"
    by simp
  from 1 2 3 show ?thesis by blast
qed


lemma calls_counting_reachable:
  assumes "calls (Counting (newCountingCompletionBarrier K)) xs = Inr (Counting c)"
  shows "once_inv c"
  using calls_inv [of "Counting (newCountingCompletionBarrier K)" xs] assms
  by (auto simp: once_inv_new_counting)

lemma counting_jobDone_effect:
  assumes i: "once_inv c"
  shows "\<exists>c'. counting_jobDone c = Inr c'
      \<and> reqsDone c' = reqsDone c + 1 \<and> numReqs c' = numReqs c \<and> reqsGrabbed c' = reqsGrabbed c
      \<and> is_closed (doneChan c') = (is_closed (doneChan c) \<or> reqsDone c + 1 = numReqs c)
      \<and> closes (doneChan c') =
          (if reqsDone c + 1 = numReqs c \<and> \<not> is_closed (doneChan c)
           then closes (doneChan c) + 1 else closes (doneChan c))
      \<and> closes (doneChan c') \<le> 1"
proof (cases "reqsDone c + 1 = numReqs c")
  case False
  with i show ?thesis
    by (simp add: counting_jobDone_def AddUint64_def Let_def once_inv_def)
next
  case True
  let ?c = "c\<lparr>reqsDone := reqsDone c + 1\<rparr>"
  from i have "once_inv ?c" by (simp add: once_inv_update_counters)
  from closeOnce_Do_close_eq [OF this] have
    c': "closeOnce_Do_close ?c
           = Inr (?c\<lparr>doneChan := \<lparr>is_closed = True, closes = 1\<rparr>, closeOnce := True\<rparr>)" .
  from i have "closes (doneChan c) = (if is_closed (doneChan c) then 1 else 0)"
    by (simp add: once_inv_def)
  with True c' show ?thesis
    by (simp add: counting_jobDone_def AddUint64_def Let_def)
qed

text \<open>
  C5. On a counting barrier in any state that calls on a new barrier lead to, \<^verbatim>\<open>jobDone\<close>
  returns without a panic, adds one to \<^verbatim>\<open>reqsDone\<close> and leaves \<^verbatim>\<open>numReqs\<close> and
  \<^verbatim>\<open>reqsGrabbed\<close> alone. The done channel is closed afterwards exactly if it was closed before
  or the new value of \<^verbatim>\<open>reqsDone\<close> equals \<^verbatim>\<open>numReqs\<close>; a \<^verbatim>\<open>close\<close> is executed in this call
  exactly if the new value equals \<^verbatim>\<open>numReqs\<close> and the channel was still open, and the channel
  has then been closed no more than once in all. On a timed barrier \<^verbatim>\<open>jobDone\<close> returns the
  barrier unchanged.
\<close>

theorem jobDone_closes_at_total:
  assumes "calls (Counting (newCountingCompletionBarrier K)) xs = Inr (Counting c)"
  shows "(\<exists>c'. counting_jobDone c = Inr c'
      \<and> reqsDone c' = reqsDone c + 1 \<and> numReqs c' = numReqs c \<and> reqsGrabbed c' = reqsGrabbed c
      \<and> is_closed (doneChan c') = (is_closed (doneChan c) \<or> reqsDone c + 1 = numReqs c)
      \<and> closes (doneChan c') =
          (if reqsDone c + 1 = numReqs c \<and> \<not> is_closed (doneChan c)
           then closes (doneChan c) + 1 else closes (doneChan c))
      \<and> closes (doneChan c') \<le> 1)
    \<and> timed_jobDone t = Inr t"
proof -
  from assms have "once_inv c" by (rule calls_counting_reachable)
  from counting_jobDone_effect [OF this] show ?thesis
    by (simp add: timed_jobDone_def)
qed

theorem jobDone_closes_at_total_witness:
  "calls (Counting (newCountingCompletionBarrier 2)) [CallTryGrabWork, CallJobDone]
     = Inr (Counting \<lparr>doneChan = \<lparr>is_closed = False, closes = 0\<rparr>, closeOnce = False,
                       numReqs = 2, reqsGrabbed = 1, reqsDone = 1\<rparr>)
   \<and> counting_jobDone \<lparr>doneChan = \<lparr>is_closed = False, closes = 0\<rparr>, closeOnce = False,
                       numReqs = 2, reqsGrabbed = 1, reqsDone = 1\<rparr>
     = Inr \<lparr>doneChan = \<lparr>is_closed = True, closes = 1\<rparr>, closeOnce = True,
                       numReqs = 2, reqsGrabbed = 1, reqsDone = 2\<rparr>
   \<and> timed_jobDone \<lparr>doneChan = make_chan, closeOnce = False, start = 0, duration = 5\<rparr>
     = Inr \<lparr>doneChan = make_chan, closeOnce = False, start = 0, duration = 5\<rparr>"
proof -
  let ?c = "\<lparr>doneChan = \<lparr>is_closed = False, closes = 0\<rparr>, closeOnce = False,
                       numReqs = 2, reqsGrabbed = 1, reqsDone = 1 :: uint64\<rparr>"
  let ?t = "\<lparr>doneChan = make_chan, closeOnce = False, start = 0, duration = 5\<rparr>"
  have r: "calls (Counting (newCountingCompletionBarrier 2)) [CallTryGrabWork, CallJobDone]
     = Inr (Counting ?c)"
    by (simp add: newCountingCompletionBarrier_def make_chan_def counting_tryGrabWork_def
        counting_jobDone_def AddUint64_def Let_def)
  from jobDone_closes_at_total [OF r, of ?t] obtain c' where
    c': "counting_jobDone ?c = Inr c'" and t: "timed_jobDone ?t = Inr ?t"
    by blast
  have "counting_jobDone ?c = Inr \<lparr>doneChan = \<lparr>is_closed = True, closes = 1\<rparr>, closeOnce = True,
                       numReqs = 2, reqsGrabbed = 1, reqsDone = 2\<rparr>"
    by (simp add: counting_jobDone_def AddUint64_def Let_def closeOnce_Do_close_def close_chan_def)
  with r t show ?thesis by simp
qed

text \<open>
  C6. Whatever calls are made on a new barrier of either kind, in any order and any number
  (\<^verbatim>\<open>Cancel\<close> and \<^verbatim>\<open>jobDone\<close>, and also \<^verbatim>\<open>tryGrabWork\<close>, \<^verbatim>\<open>completed\<close> and the firing of the
  deadline timer), none of them panics, and \<^verbatim>\<open>close\<close> is executed on the done channel at most
  once. A timed barrier exists only for a duration that is not negative.
\<close>

theorem close_at_most_once:
  "(\<exists>b. calls (Counting (newCountingCompletionBarrier K)) xs = Inr b
        \<and> closes (barrier_done b) \<le> 1)
   \<and> (if 0 \<le> sint d
      then \<exists>t b. newTimedCompletionBarrier now d = Inr t \<and> calls (Timed t) ys = Inr b
             \<and> closes (barrier_done b) \<le> 1
      else newTimedCompletionBarrier now d = Inl (Panic ''timedCompletionBarrier: negative duration''))"
proof -
  have c: "\<exists>b. calls (Counting (newCountingCompletionBarrier K)) xs = Inr b
        \<and> closes (barrier_done b) \<le> 1"
  proof -
    from calls_inv [of "Counting (newCountingCompletionBarrier K)" xs]
    obtain b' c' where "calls (Counting (newCountingCompletionBarrier K)) xs = Inr b'"
        "b' = Counting c'" "once_inv c'"
      by (auto simp: once_inv_new_counting)
    then show ?thesis
      using once_inv_closes_le [of c'] by (simp add: counting_done_def)
  qed
  have t: "\<exists>t b. newTimedCompletionBarrier now d = Inr t \<and> calls (Timed t) ys = Inr b
             \<and> closes (barrier_done b) \<le> 1" if "0 \<le> sint d"
  proof -
    from that obtain t where t: "newTimedCompletionBarrier now d = Inr t"
      by (simp add: newTimedCompletionBarrier_def)
    from calls_inv [of "Timed t" ys] once_inv_new_timed [OF t]
    obtain b' t' where "calls (Timed t) ys = Inr b'" "b' = Timed t'" "once_inv t'"
      by auto
    with t show ?thesis
      using once_inv_closes_le [of t'] by (simp add: timed_done_def)
  qed
  have n: "newTimedCompletionBarrier now d = Inl (Panic ''timedCompletionBarrier: negative duration'')"
    if "\<not> 0 \<le> sint d"
    using that by (simp add: newTimedCompletionBarrier_def)
  from c t n show ?thesis by presburger
qed

theorem close_at_most_once_witness:
  "calls (Counting (newCountingCompletionBarrier 1))
       [CallCancel, CallJobDone, CallCancel, CallJobDone]
     = Inr (Counting \<lparr>doneChan = \<lparr>is_closed = True, closes = 1\<rparr>, closeOnce = True,
                       numReqs = 1, reqsGrabbed = 0, reqsDone = 2\<rparr>)
   \<and> newTimedCompletionBarrier 7 1000000000
     = Inr \<lparr>doneChan = make_chan, closeOnce = False, start = 7, duration = 1000000000\<rparr>
   \<and> calls (Timed \<lparr>doneChan = make_chan, closeOnce = False, start = 7, duration = 1000000000\<rparr>)
       [CallCancel, Deadline, CallJobDone, CallCancel]
     = Inr (Timed \<lparr>doneChan = \<lparr>is_closed = True, closes = 1\<rparr>, closeOnce = True,
                     start = 7, duration = 1000000000\<rparr>)"
proof -
  let ?xs = "[CallCancel, CallJobDone, CallCancel, CallJobDone]"
  let ?ys = "[CallCancel, Deadline, CallJobDone, CallCancel]"
  from close_at_most_once [of 1 ?xs 1000000000 7 ?ys]
  have "\<exists>b. calls (Counting (newCountingCompletionBarrier 1)) ?xs = Inr b
          \<and> closes (barrier_done b) \<le> 1"
    by (rule conjunct1)
  moreover have "calls (Counting (newCountingCompletionBarrier 1)) ?xs
     = Inr (Counting \<lparr>doneChan = \<lparr>is_closed = True, closes = 1\<rparr>, closeOnce = True,
                       numReqs = 1, reqsGrabbed = 0, reqsDone = 2\<rparr>)"
    by (simp add: newCountingCompletionBarrier_def make_chan_def counting_Cancel_def
        counting_jobDone_def AddUint64_def Let_def closeOnce_Do_close_def close_chan_def)
  moreover have "newTimedCompletionBarrier 7 1000000000
     = Inr \<lparr>doneChan = make_chan, closeOnce = False, start = 7, duration = 1000000000\<rparr>"
    by (simp add: newTimedCompletionBarrier_def)
  moreover have
    "calls (Timed \<lparr>doneChan = make_chan, closeOnce = False, start = 7, duration = 1000000000\<rparr>) ?ys
     = Inr (Timed \<lparr>doneChan = \<lparr>is_closed = True, closes = 1\<rparr>, closeOnce = True,
                     start = 7, duration = 1000000000\<rparr>)"
    by (simp add: make_chan_def timed_Cancel_def timed_deadline_def timed_jobDone_def
        closeOnce_Do_close_def close_chan_def)
  ultimately show ?thesis by simp
qed


section \<open>Properties of the statistics and of the byte-counting connection\<close>

lemma quo_100:
  "quo code 100 = (if code < 0 then - ((- code) div 100) else code div 100)"
  by (simp add: quo_def)

lemma quo_100_cases:
  obtains d where "0 \<le> code" "quo code 100 = d" "100 * d \<le> code" "code < 100 * d + 100"
  | d where "code < 0" "quo code 100 = - d" "100 * d \<le> - code" "- code < 100 * d + 100"
proof -
  have b: "100 * (a div 100) \<le> a \<and> a < 100 * (a div 100) + 100" for a :: int
  proof -
    define d m where "d = a div 100" and "m = a mod 100"
    have "a = 100 * d + m" unfolding d_def m_def by (rule mult_div_mod_eq [symmetric])
    moreover have "0 \<le> m" "m < 100" unfolding m_def by simp_all
    ultimately have "100 * d \<le> a \<and> a < 100 * d + 100" by linarith
    then show ?thesis unfolding d_def .
  qed
  show thesis
  proof (cases "code < 0")
    case True
    then have "quo code 100 = - ((- code) div 100)" by (simp only: quo_100 if_True)
    with True b [of "- code"] that(2) show thesis by blast
  next
    case False
    then have "quo code 100 = code div 100" by (simp only: quo_100 if_False)
    moreover from False have "0 \<le> code" by simp
    ultimately show thesis using b [of code] that(1) by blast
  qed
qed

lemma quo_100_eq:
  assumes "0 < q"
  shows "(quo code 100 = q) = (100 * q \<le> code \<and> code < 100 * q + 100)"
proof (rule quo_100_cases [of code])
  fix d assume "0 \<le> code" "quo code 100 = d" "100 * d \<le> code" "code < 100 * d + 100"
  then show ?thesis by (simp only:) linarith
next
  fix d assume "code < 0" "quo code 100 = - d" "100 * d \<le> - code" "- code < 100 * d + 100"
  with assms show ?thesis by (simp only:) linarith
qed

lemma quo_100_small: "(quo code 100 < 1) = (code < 100)"
proof (rule quo_100_cases [of code])
  fix d assume "0 \<le> code" "quo code 100 = d" "100 * d \<le> code" "code < 100 * d + 100"
  then show ?thesis by (simp only:) linarith
next
  fix d assume "code < 0" "quo code 100 = - d" "100 * d \<le> - code" "- code < 100 * d + 100"
  then show ?thesis by (simp only:) linarith
qed

lemma quo_100_large: "(5 < quo code 100) = (600 \<le> code)"
proof (rule quo_100_cases [of code])
  fix d assume "0 \<le> code" "quo code 100 = d" "100 * d \<le> code" "code < 100 * d + 100"
  then show ?thesis by (simp only:) linarith
next
  fix d assume "code < 0" "quo code 100 = - d" "100 * d \<le> - code" "- code < 100 * d + 100"
  then show ?thesis by (simp only:) linarith
qed

lemma quo_100_others:
  "(status_bucket (quo code 100) = ClassOthers) = (code < 100 \<or> 600 \<le> code)"
proof -
  have "(status_bucket q = ClassOthers) = (q < 1 \<or> 5 < q)" for q
    by (simp add: status_bucket_def) linarith
  then show ?thesis by (simp only: quo_100_small quo_100_large)
qed
lemma counter_writeStatistics:
  "counter k (writeStatistics b code msTaken) =
     (if k = status_bucket (quo code 100) then counter k b + 1 else counter k b)"
  by (cases k) (simp_all add: writeStatistics_def status_bucket_def AddUint64_def Let_def)

lemma latencies_writeStatistics:
  "latencies (writeStatistics b code msTaken) = (latencies b)(msTaken := latencies b msTaken + 1)"
  by (simp add: writeStatistics_def Histogram_Increment_def Let_def)

text \<open>
  C3. \<^verbatim>\<open>writeStatistics\<close>, and with it every \<^verbatim>\<open>performSingleRequest\<close> whatever
  \<^verbatim>\<open>client.do\<close> returned, adds one to the status counter that the quotient \<^verbatim>\<open>code/100\<close>
  selects (1 to 5 the counters \<^verbatim>\<open>req1xx\<close> to \<^verbatim>\<open>req5xx\<close>, any other quotient \<^verbatim>\<open>others\<close>) and
  leaves the other five as they were; it records the time taken once in the latency
  histogram, with or without an error. The quotient is 2 exactly for the codes 200 to 299
  (and so on for 1, 3, 4, 5), and \<^verbatim>\<open>others\<close> counts exactly the codes below 100, among them the
  code 0, and from 600 on.
\<close>

theorem writeStatistics_one_counter:
  "(\<forall>k. counter k (writeStatistics b code msTaken) =
          (if k = status_bucket (quo code 100) then counter k b + 1 else counter k b))
   \<and> latencies (writeStatistics b code msTaken)
        = (latencies b)(msTaken := latencies b msTaken + 1)
   \<and> (\<forall>k. counter k (performSingleRequest b (code, msTaken, err)) =
          (if k = status_bucket (quo code 100) then counter k b + 1 else counter k b))
   \<and> latencies (performSingleRequest b (code, msTaken, err))
        = (latencies b)(msTaken := latencies b msTaken + 1)
   \<and> (\<forall>q \<in> {1, 2, 3, 4, 5}.
         (quo code 100 = q) = (100 * q \<le> code \<and> code < 100 * q + 100))
   \<and> (status_bucket (quo code 100) = ClassOthers) = (code < 100 \<or> 600 \<le> code)"
proof -
  have p: "counter k (performSingleRequest b (code, msTaken, err)) =
          (if k = status_bucket (quo code 100) then counter k b + 1 else counter k b)" for k
    by (cases err; cases k) (simp_all add: performSingleRequest_def counter_writeStatistics)
  have l: "latencies (performSingleRequest b (code, msTaken, err))
        = (latencies b)(msTaken := latencies b msTaken + 1)"
    by (cases err) (simp_all add: performSingleRequest_def latencies_writeStatistics)
  have q: "\<forall>q \<in> {1, 2, 3, 4, 5}.
         (quo code 100 = q) = (100 * q \<le> code \<and> code < 100 * q + 100)"
    using quo_100_eq [of 1 code] quo_100_eq [of 2 code] quo_100_eq [of 3 code]
      quo_100_eq [of 4 code] quo_100_eq [of 5 code]
    by simp
  from p l q show ?thesis
    by (simp add: counter_writeStatistics latencies_writeStatistics quo_100_others)
qed

theorem writeStatistics_one_counter_witness:
  "counter Class4xx (writeStatistics
      (performSingleRequest (writeStatistics test_Bombardier 404 17) (0, 5, Some ''timeout''))
      200 17) = 1
   \<and> counter ClassOthers (writeStatistics
      (performSingleRequest (writeStatistics test_Bombardier 404 17) (0, 5, Some ''timeout''))
      200 17) = 1
   \<and> latencies (performSingleRequest test_Bombardier (0, 5, Some ''timeout'')) 5 = 1
   \<and> quo 404 100 = 4"
proof -
  let ?b = test_Bombardier
  let ?b1 = "writeStatistics ?b 404 17"
  let ?b2 = "performSingleRequest ?b1 (0, 5, Some ''timeout'')"
  have q: "quo 404 100 = 4" "quo 0 100 = 0" "quo 200 100 = 2"
    by (simp_all add: quo_def)
  have s: "status_bucket 4 = Class4xx" "status_bucket 0 = ClassOthers"
      "status_bucket 2 = Class2xx"
    by (simp_all add: status_bucket_def)
  have z: "counter Class4xx ?b = 0" "counter ClassOthers ?b = 0" "latencies ?b 5 = 0"
    by (simp_all add: test_Bombardier_def Histogram_Default_def)
  note t1 = writeStatistics_one_counter [of ?b 404 17 None, unfolded q s]
  note t2 = writeStatistics_one_counter [of ?b1 0 5 "Some ''timeout''", unfolded q s]
  note t3 = writeStatistics_one_counter [of ?b2 200 17 None, unfolded q s]
  note t4 = writeStatistics_one_counter [of ?b 0 5 "Some ''timeout''", unfolded q s]
  from t1 z have a1: "counter Class4xx ?b1 = 1" "counter ClassOthers ?b1 = 0"
    by simp_all
  from t2 a1 have a2: "counter Class4xx ?b2 = 1" "counter ClassOthers ?b2 = 1"
    by simp_all
  from t3 a2 have a3: "counter Class4xx (writeStatistics ?b2 200 17) = 1"
      "counter ClassOthers (writeStatistics ?b2 200 17) = 1"
    by simp_all
  from t4 z have a4: "latencies (performSingleRequest ?b (0, 5, Some ''timeout'')) 5 = 1"
    by simp
  from a3 a4 q(1) show ?thesis by (intro conjI)
qed

lemma countingConn_Read_eq:
  "countingConn_Read (n, err) t = ((n, err), if err = None then t + word_of_int n else t)"
  by (simp add: countingConn_Read_def AddInt64_def)

lemma countingConn_Write_eq:
  "countingConn_Write (n, err) t = ((n, err), if err = None then t + word_of_int n else t)"
  by (simp add: countingConn_Write_def AddInt64_def)

text \<open>
  C7, as amended. \<^verbatim>\<open>countingConn.Read\<close> and \<^verbatim>\<open>countingConn.Write\<close> hand the count and the
  error of the wrapped connection to the caller unchanged. They add the count to the shared
  total only if the error is \<^verbatim>\<open>nil\<close>; with an error the total stays as it was, whatever the
  count, so the bytes of a partial read or write that ends in an error are not credited.
\<close>

theorem countingConn_credits_without_error_only:
  "fst (countingConn_Read (n, err) t) = (n, err)
   \<and> fst (countingConn_Write (n, err) t) = (n, err)
   \<and> (err = None \<longrightarrow>
        snd (countingConn_Read (n, err) t) = t + word_of_int n
        \<and> snd (countingConn_Write (n, err) t) = t + word_of_int n)
   \<and> (err \<noteq> None \<longrightarrow>
        snd (countingConn_Read (n, err) t) = t \<and> snd (countingConn_Write (n, err) t) = t)"
  by (simp add: countingConn_Read_eq countingConn_Write_eq)

theorem countingConn_credits_without_error_only_witness:
  "countingConn_Read (5, None) 100 = ((5, None), 105)
   \<and> countingConn_Write (5, None) 100 = ((5, None), 105)
   \<and> countingConn_Read (5, Some ''connection reset by peer'') 100
       = ((5, Some ''connection reset by peer''), 100)
   \<and> countingConn_Write (5, Some ''broken pipe'') 100 = ((5, Some ''broken pipe''), 100)"
proof -
  have n: "(None :: string option) = None" "Some ''connection reset by peer'' \<noteq> None"
      "Some ''broken pipe'' \<noteq> None"
    by simp_all
  from countingConn_credits_without_error_only [of 5 None 100] n(1)
  have 1: "countingConn_Read (5, None) 100 = ((5, None), 105)"
      "countingConn_Write (5, None) 100 = ((5, None), 105)"
    by (simp_all add: prod_eq_iff)
  from countingConn_credits_without_error_only [of 5 "Some ''connection reset by peer''" 100] n(2)
  have 2: "countingConn_Read (5, Some ''connection reset by peer'') 100
       = ((5, Some ''connection reset by peer''), 100)"
    by (simp add: prod_eq_iff)
  from countingConn_credits_without_error_only [of 5 "Some ''broken pipe''" 100] n(3)
  have 3: "countingConn_Write (5, Some ''broken pipe'') 100 = ((5, Some ''broken pipe''), 100)"
    by (simp add: prod_eq_iff)
  from 1 2 3 show ?thesis by simp
qed

text \<open>
  The claim as stated fails when the wrapped connection reports 5 bytes together with an
  error: the total, 100 before the call, is 100 after it and not 105, for \<^verbatim>\<open>Read\<close> and for
  \<^verbatim>\<open>Write\<close>.
\<close>

theorem countingConn_partial_not_credited_counterexample:
  "snd (countingConn_Read (5, Some ''connection reset by peer'') 100) = 100
   \<and> snd (countingConn_Read (5, Some ''connection reset by peer'') 100) \<noteq> 100 + 5
   \<and> snd (countingConn_Write (5, Some ''broken pipe'') 100) = 100
   \<and> snd (countingConn_Write (5, Some ''broken pipe'') 100) \<noteq> 100 + 5"
  by (simp add: countingConn_Read_def countingConn_Write_def)


section \<open>Properties of the validation and of \<^verbatim>\<open>NewBombardier\<close>\<close>

lemma Rate_checkOrSetDefaultTestType [simp]:
  "Rate (checkOrSetDefaultTestType x c) = Rate c"
  by (simp add: checkOrSetDefaultTestType_def)

lemma checkURL_cases:
  obtains err where "checkURL x c = (Some err, c)"
  | u where "checkURL x c = (None, c\<lparr>Url := u\<rparr>)"
proof (cases "urlx_Parse x (Url c)")
  case (Inl err)
  then have "checkURL x c = (Some err, c)" by (simp add: checkURL_def)
  then show thesis by (rule that(1))
next
  case (Inr u)
  show thesis
  proof (cases "Host u = [] \<or> (Scheme u \<noteq> ''http'' \<and> Scheme u \<noteq> ''https'')")
    case True
    with Inr have "checkURL x c = (Some errInvalidURL, c)" by (simp add: checkURL_def)
    then show thesis by (rule that(1))
  next
    case False
    with Inr have "checkURL x c = (None, c\<lparr>Url := String u\<rparr>)" by (simp add: checkURL_def)
    then show thesis by (rule that(2))
  qed
qed

lemma checkRate_zero: "Rate c = Some 0 \<Longrightarrow> checkRate c = (Some errZeroRate, c)"
  by (simp add: checkRate_def)

lemma checkRate_pass:
  assumes "Rate c = Some r" "1 \<le> r"
  shows "checkRate c = (None, c)"
proof -
  from assms(2) have "\<not> r < 1" by (simp only: not_less)
  with assms(1) show ?thesis by (simp add: checkRate_def)
qed

lemma checkRate_error_iff: "(fst (checkRate c) = Some errZeroRate) = (Rate c = Some 0)"
proof (cases "Rate c")
  case None
  then show ?thesis by (simp add: checkRate_def)
next
  case (Some r)
  have "(r < 1) = (r = 0)" by (simp add: word_less_1)
  with Some show ?thesis by (simp add: checkRate_def)
qed

lemma checkArgs_zero_rate:
  assumes "Rate c = Some 0"
  shows "\<exists>err. fst (checkArgs x c) = Some err
           \<and> (fst (checkURL x (checkOrSetDefaultTestType x c)) = None \<longrightarrow> err = errZeroRate)"
proof (rule checkURL_cases [of x "checkOrSetDefaultTestType x c"])
  fix err assume "checkURL x (checkOrSetDefaultTestType x c)
      = (Some err, checkOrSetDefaultTestType x c)"
  then show ?thesis by (simp add: checkArgs_def)
next
  fix u assume u: "checkURL x (checkOrSetDefaultTestType x c)
      = (None, (checkOrSetDefaultTestType x c)\<lparr>Url := u\<rparr>)"
  from assms have "Rate ((checkOrSetDefaultTestType x c)\<lparr>Url := u\<rparr>) = Some 0" by simp
  from checkRate_zero [OF this] u show ?thesis by (simp add: checkArgs_def)
qed

lemma NewBombardier_checkArgs_error:
  assumes "fst (checkArgs x c) = Some err"
  shows "NewBombardier x c = Inl (Err err)"
proof -
  obtain c' where "checkArgs x c = (Some err, c')"
    using assms by (cases "checkArgs x c") simp
  then show ?thesis
    unfolding NewBombardier_def by (simp only: prod.case option.case)
qed

text \<open>
  C8. For a \<^verbatim>\<open>Config\<close> whose \<^verbatim>\<open>Rate\<close> is present and 0, \<^verbatim>\<open>checkArgs\<close> returns an error, and
  \<^verbatim>\<open>NewBombardier\<close> returns that error and no bombardier, so no worker is ever started; the
  error is \<^verbatim>\<open>errZeroRate\<close> whenever the URL check, which runs first, passes. \<^verbatim>\<open>checkRate\<close>
  returns \<^verbatim>\<open>errZeroRate\<close> for exactly these configurations, and passes every \<^verbatim>\<open>Rate\<close> of at
  least 1.
\<close>

theorem checkArgs_rejects_zero_rate:
  "(Rate c = Some 0 \<longrightarrow>
      (\<exists>err. fst (checkArgs x c) = Some err \<and> NewBombardier x c = Inl (Err err)
         \<and> (fst (checkURL x (checkOrSetDefaultTestType x c)) = None \<longrightarrow> err = errZeroRate)))
   \<and> (fst (checkRate c) = Some errZeroRate) = (Rate c = Some 0)
   \<and> (\<forall>r. Rate c = Some r \<and> 1 \<le> r \<longrightarrow> checkRate c = (None, c))"
proof -
  have 1: "\<exists>err. fst (checkArgs x c) = Some err \<and> NewBombardier x c = Inl (Err err)
         \<and> (fst (checkURL x (checkOrSetDefaultTestType x c)) = None \<longrightarrow> err = errZeroRate)"
    if "Rate c = Some 0"
  proof -
    from checkArgs_zero_rate [OF that, of x] obtain err where
      e: "fst (checkArgs x c) = Some err"
        "fst (checkURL x (checkOrSetDefaultTestType x c)) = None \<longrightarrow> err = errZeroRate"
      by (elim exE conjE)
    from NewBombardier_checkArgs_error [OF e(1)] e show ?thesis
      by (intro exI [of _ err] conjI)
  qed
  have 2: "(fst (checkRate c) = Some errZeroRate) = (Rate c = Some 0)"
    by (rule checkRate_error_iff)
  have 3: "\<forall>r. Rate c = Some r \<and> 1 \<le> r \<longrightarrow> checkRate c = (None, c)"
  proof (intro allI impI)
    fix r assume "Rate c = Some r \<and> 1 \<le> r"
    then show "checkRate c = (None, c)" using checkRate_pass [of c r] by simp
  qed
  from 1 have "Rate c = Some 0 \<longrightarrow>
      (\<exists>err. fst (checkArgs x c) = Some err \<and> NewBombardier x c = Inl (Err err)
         \<and> (fst (checkURL x (checkOrSetDefaultTestType x c)) = None \<longrightarrow> err = errZeroRate))"
    by (rule impI)
  with 2 3 show ?thesis by (intro conjI)
qed

theorem checkArgs_rejects_zero_rate_witness:
  "fst (checkArgs test_externals (test_Config\<lparr>Rate := Some 0\<rparr>)) = Some errZeroRate
   \<and> NewBombardier test_externals (test_Config\<lparr>Rate := Some 0\<rparr>) = Inl (Err errZeroRate)
   \<and> checkRate (test_Config\<lparr>Rate := Some 1\<rparr>) = (None, test_Config\<lparr>Rate := Some 1\<rparr>)"
proof -
  let ?c = "test_Config\<lparr>Rate := Some 0\<rparr>"
  note th = checkArgs_rejects_zero_rate [of ?c test_externals]
  have r: "Rate ?c = Some 0" by simp
  have u: "fst (checkURL test_externals (checkOrSetDefaultTestType test_externals ?c)) = None"
    by code_simp
  from th have "Rate ?c = Some 0 \<longrightarrow>
      (\<exists>err. fst (checkArgs test_externals ?c) = Some err
         \<and> NewBombardier test_externals ?c = Inl (Err err)
         \<and> (fst (checkURL test_externals (checkOrSetDefaultTestType test_externals ?c)) = None
              \<longrightarrow> err = errZeroRate))"
    by (rule conjunct1)
  from this r have "\<exists>err. fst (checkArgs test_externals ?c) = Some err
         \<and> NewBombardier test_externals ?c = Inl (Err err)
         \<and> (fst (checkURL test_externals (checkOrSetDefaultTestType test_externals ?c)) = None
              \<longrightarrow> err = errZeroRate)"
    by (rule mp)
  then obtain err where e: "fst (checkArgs test_externals ?c) = Some err"
      "NewBombardier test_externals ?c = Inl (Err err)"
      "fst (checkURL test_externals (checkOrSetDefaultTestType test_externals ?c)) = None
         \<longrightarrow> err = errZeroRate"
    by (elim exE conjE)
  from e(3) u have "err = errZeroRate" by (rule mp)
  with e(1,2) have 1: "fst (checkArgs test_externals ?c) = Some errZeroRate"
      "NewBombardier test_externals ?c = Inl (Err errZeroRate)"
    by simp_all
  let ?d = "test_Config\<lparr>Rate := Some 1\<rparr>"
  from checkArgs_rejects_zero_rate [of ?d test_externals]
  have "\<forall>r. Rate ?d = Some r \<and> 1 \<le> r \<longrightarrow> checkRate ?d = (None, ?d)"
    by (elim conjE)
  then have "Rate ?d = Some 1 \<and> (1 :: uint64) \<le> 1 \<longrightarrow> checkRate ?d = (None, ?d)"
    by (rule spec)
  moreover have "Rate ?d = Some 1 \<and> (1 :: uint64) \<le> 1" by simp
  ultimately have 2: "checkRate ?d = (None, ?d)" by (rule mp)
  from 1 2 show ?thesis by (intro conjI)
qed


text \<open>
  No check writes to a field other than \<^verbatim>\<open>Url\<close>, and none reads \<^verbatim>\<open>Duration\<close> while
  \<^verbatim>\<open>NumReqs\<close> is set.
\<close>

lemma checkURL_frame:
  "snd (checkURL x c) = c\<lparr>Url := Url (snd (checkURL x c))\<rparr>"
  by (rule checkURL_cases [of x c]) simp_all

lemma simple_checks_frame:
  "snd (checkRate c) = c"
  "snd (checkRunParameters c) = c"
  "snd (checkTimeoutDuration c) = c"
  "snd (checkHTTPParameters x c) = c"
  "snd (checkCertPaths c) = c"
  by (simp_all add: checkRate_def checkRunParameters_def checkTimeoutDuration_def
      checkHTTPParameters_def checkCertPaths_def)

lemma run_checks_frame:
  assumes "\<And>check c. check \<in> set checks \<Longrightarrow> snd (check c) = c\<lparr>Url := Url (snd (check c))\<rparr>"
  shows "snd (run_checks checks c) = c\<lparr>Url := Url (snd (run_checks checks c))\<rparr>"
  using assms
proof (induction checks arbitrary: c)
  case Nil
  then show ?case by simp
next
  case (Cons check checks)
  obtain e c1 where c1: "check c = (e, c1)" by (cases "check c")
  from Cons.prems [of check c] c1 have f1: "c1 = c\<lparr>Url := Url c1\<rparr>" by simp
  show ?case
  proof (cases e)
    case (Some err)
    with c1 f1 show ?thesis by simp
  next
    case None
    from Cons.IH [of c1] Cons.prems
    have "snd (run_checks checks c1) = c1\<lparr>Url := Url (snd (run_checks checks c1))\<rparr>"
      by simp
    then have "snd (run_checks checks c1) = c\<lparr>Url := Url (snd (run_checks checks c1))\<rparr>"
      by (subst (asm) f1) simp
    with None c1 show ?thesis by simp
  qed
qed

lemma checkArgs_frame:
  "snd (checkArgs x c)
     = (checkOrSetDefaultTestType x c)\<lparr>Url := Url (snd (checkArgs x c))\<rparr>"
  unfolding checkArgs_def
proof (rule run_checks_frame)
  fix check c'
  assume "check \<in> set [checkURL x, checkRate, checkRunParameters, checkTimeoutDuration,
        checkHTTPParameters x, checkCertPaths]"
  then consider "check = checkURL x" | "check = checkRate" | "check = checkRunParameters"
    | "check = checkTimeoutDuration" | "check = checkHTTPParameters x" | "check = checkCertPaths"
    by auto
  then show "snd (check c') = c'\<lparr>Url := Url (snd (check c'))\<rparr>"
  proof cases
    case 1
    then show ?thesis using checkURL_frame [of x c'] by simp
  qed (simp_all add: simple_checks_frame)
qed

lemma checkArgs_fields:
  "NumReqs (snd (checkArgs x c)) = NumReqs c"
  "Duration (snd (checkArgs x c)) = Duration (checkOrSetDefaultTestType x c)"
proof -
  have n: "NumReqs (checkOrSetDefaultTestType x c) = NumReqs c"
    by (simp add: checkOrSetDefaultTestType_def)
  show "NumReqs (snd (checkArgs x c)) = NumReqs c"
    by (subst checkArgs_frame) (simp add: n)
  show "Duration (snd (checkArgs x c)) = Duration (checkOrSetDefaultTestType x c)"
    by (subst checkArgs_frame) simp
qed

lemma testType_counted: "NumReqs c \<noteq> None \<Longrightarrow> testType c = counted"
  by (simp add: testType_def)

lemma testType_Duration_update:
  "NumReqs c \<noteq> None \<Longrightarrow> testType (c\<lparr>Duration := d\<rparr>) = counted"
  by (simp add: testType_def)

lemma checkURL_Duration:
  "checkURL x (c\<lparr>Duration := d\<rparr>) = (fst (checkURL x c), (snd (checkURL x c))\<lparr>Duration := d\<rparr>)"
proof (cases "urlx_Parse x (Url c)")
  case (Inl err)
  then show ?thesis by (simp add: checkURL_def)
next
  case (Inr u)
  then show ?thesis by (simp add: checkURL_def)
qed

lemma simple_checks_Duration:
  assumes "NumReqs c \<noteq> None"
  shows "checkRate (c\<lparr>Duration := d\<rparr>) = (fst (checkRate c), (snd (checkRate c))\<lparr>Duration := d\<rparr>)"
    and "checkRunParameters (c\<lparr>Duration := d\<rparr>)
          = (fst (checkRunParameters c), (snd (checkRunParameters c))\<lparr>Duration := d\<rparr>)"
    and "checkTimeoutDuration (c\<lparr>Duration := d\<rparr>)
          = (fst (checkTimeoutDuration c), (snd (checkTimeoutDuration c))\<lparr>Duration := d\<rparr>)"
    and "checkHTTPParameters x (c\<lparr>Duration := d\<rparr>)
          = (fst (checkHTTPParameters x c), (snd (checkHTTPParameters x c))\<lparr>Duration := d\<rparr>)"
    and "checkCertPaths (c\<lparr>Duration := d\<rparr>)
          = (fst (checkCertPaths c), (snd (checkCertPaths c))\<lparr>Duration := d\<rparr>)"
proof -
  show "checkRate (c\<lparr>Duration := d\<rparr>) = (fst (checkRate c), (snd (checkRate c))\<lparr>Duration := d\<rparr>)"
    by (simp add: checkRate_def)
  show "checkRunParameters (c\<lparr>Duration := d\<rparr>)
          = (fst (checkRunParameters c), (snd (checkRunParameters c))\<lparr>Duration := d\<rparr>)"
    using assms
    by (simp add: checkRunParameters_def testType_counted testType_Duration_update)
  show "checkTimeoutDuration (c\<lparr>Duration := d\<rparr>)
          = (fst (checkTimeoutDuration c), (snd (checkTimeoutDuration c))\<lparr>Duration := d\<rparr>)"
    by (simp add: checkTimeoutDuration_def)
  show "checkHTTPParameters x (c\<lparr>Duration := d\<rparr>)
          = (fst (checkHTTPParameters x c), (snd (checkHTTPParameters x c))\<lparr>Duration := d\<rparr>)"
    by (simp add: checkHTTPParameters_def)
  show "checkCertPaths (c\<lparr>Duration := d\<rparr>)
          = (fst (checkCertPaths c), (snd (checkCertPaths c))\<lparr>Duration := d\<rparr>)"
    by (simp add: checkCertPaths_def)
qed

lemma run_checks_Duration:
  assumes "\<And>check c. check \<in> set checks \<Longrightarrow> NumReqs c \<noteq> None \<Longrightarrow>
             check (c\<lparr>Duration := d\<rparr>) = (fst (check c), (snd (check c))\<lparr>Duration := d\<rparr>)
             \<and> NumReqs (snd (check c)) \<noteq> None"
    and "NumReqs c \<noteq> None"
  shows "run_checks checks (c\<lparr>Duration := d\<rparr>)
           = (fst (run_checks checks c), (snd (run_checks checks c))\<lparr>Duration := d\<rparr>)"
  using assms
proof (induction checks arbitrary: c)
  case Nil
  then show ?case by simp
next
  case (Cons check checks)
  obtain e c1 where c1: "check c = (e, c1)" by (cases "check c")
  from Cons.prems(1) [of check c] Cons.prems(2) c1
  have s: "check (c\<lparr>Duration := d\<rparr>) = (e, c1\<lparr>Duration := d\<rparr>)" and n: "NumReqs c1 \<noteq> None"
    by simp_all
  show ?case
  proof (cases e)
    case (Some err)
    with c1 s show ?thesis by simp
  next
    case None
    have "run_checks checks (c1\<lparr>Duration := d\<rparr>)
           = (fst (run_checks checks c1), (snd (run_checks checks c1))\<lparr>Duration := d\<rparr>)"
      by (rule Cons.IH [OF _ n]) (rule Cons.prems(1), simp_all)
    with None c1 s show ?thesis by (simp split: prod.splits)
  qed
qed

lemma checkArgs_Duration:
  assumes "NumReqs c \<noteq> None"
  shows "checkArgs x (c\<lparr>Duration := d\<rparr>)
           = (fst (checkArgs x c), (snd (checkArgs x c))\<lparr>Duration := d\<rparr>)"
proof -
  from assms have t: "checkOrSetDefaultTestType x c = c"
      "checkOrSetDefaultTestType x (c\<lparr>Duration := d\<rparr>) = c\<lparr>Duration := d\<rparr>"
    by (simp_all add: checkOrSetDefaultTestType_def testType_def)
  have "run_checks
       [checkURL x, checkRate, checkRunParameters, checkTimeoutDuration,
        checkHTTPParameters x, checkCertPaths] (c\<lparr>Duration := d\<rparr>)
     = (fst (run_checks
       [checkURL x, checkRate, checkRunParameters, checkTimeoutDuration,
        checkHTTPParameters x, checkCertPaths] c),
        (snd (run_checks
       [checkURL x, checkRate, checkRunParameters, checkTimeoutDuration,
        checkHTTPParameters x, checkCertPaths] c))\<lparr>Duration := d\<rparr>)"
  proof (rule run_checks_Duration [OF _ assms])
    fix check and c' :: Config
    assume m: "check \<in> set [checkURL x, checkRate, checkRunParameters, checkTimeoutDuration,
        checkHTTPParameters x, checkCertPaths]" and n: "NumReqs c' \<noteq> None"
    from m consider "check = checkURL x" | "check = checkRate" | "check = checkRunParameters"
      | "check = checkTimeoutDuration" | "check = checkHTTPParameters x" | "check = checkCertPaths"
      by auto
    then show "check (c'\<lparr>Duration := d\<rparr>) = (fst (check c'), (snd (check c'))\<lparr>Duration := d\<rparr>)
             \<and> NumReqs (snd (check c')) \<noteq> None"
    proof cases
      case 1
      have "NumReqs (snd (checkURL x c')) = NumReqs c'"
        by (subst checkURL_frame) simp
      with 1 n show ?thesis by (simp add: checkURL_Duration)
    qed (simp_all add: simple_checks_Duration [OF n] simple_checks_frame n)
  qed
  with t show ?thesis by (simp add: checkArgs_def)
qed

lemma NewBombardier_Inr:
  assumes "NewBombardier x c = Inr b"
  shows "fst (checkArgs x c) = None \<and> Conf b = snd (checkArgs x c)
           \<and> new_barrier x (snd (checkArgs x c)) = Inr (Barrier b)"
  using assms unfolding NewBombardier_def
  by (auto split: prod.splits option.splits sum.splits)

lemma post_validation_Duration:
  assumes "NumReqs c \<noteq> None"
  shows "new_bar (c\<lparr>Duration := d\<rparr>) = new_bar c"
    and "new_barrier x (c\<lparr>Duration := d\<rparr>) = new_barrier x c"
    and "generateTLSConfig x (c\<lparr>Duration := d\<rparr>) = generateTLSConfig x c"
    and "new_body x (c\<lparr>Duration := d\<rparr>) = new_body x c"
    and "prepareTemplate x (c\<lparr>Duration := d\<rparr>) = prepareTemplate x c"
  using assms
  by (simp_all add: new_bar_def new_barrier_def generateTLSConfig_def new_body_def
      prepareTemplate_def testType_counted testType_Duration_update cong: sum.case_cong)

lemma NewBombardier_Duration:
  assumes "NumReqs c \<noteq> None"
  shows "forget_Duration (NewBombardier x (c\<lparr>Duration := d\<rparr>))
           = forget_Duration (NewBombardier x c)"
proof -
  obtain e c' where ca: "checkArgs x c = (e, c')" by (cases "checkArgs x c")
  with checkArgs_Duration [OF assms, of x d]
  have cd: "checkArgs x (c\<lparr>Duration := d\<rparr>) = (e, c'\<lparr>Duration := d\<rparr>)" by simp
  from checkArgs_fields(1) [of x c] ca assms have n: "NumReqs c' \<noteq> None" by simp
  note pv = post_validation_Duration [OF n]
  show ?thesis
  proof (cases e)
    case (Some err)
    with ca cd show ?thesis by (simp add: NewBombardier_def)
  next
    case None
    note unf = NewBombardier_def ca cd None pv prod.case option.case
    show ?thesis
    proof (cases "new_bar c'")
      case (Inl f)
      then show ?thesis unfolding unf by simp
    next
      case pbar: (Inr pbar)
      show ?thesis
      proof (cases "new_barrier x c'")
        case (Inl f)
        with pbar show ?thesis unfolding unf by simp
      next
        case barrier: (Inr barrier)
        show ?thesis
        proof (cases "generateTLSConfig x c'")
          case (Inl err)
          with pbar barrier show ?thesis unfolding unf by simp
        next
          case tlsc: (Inr tlsc)
          show ?thesis
          proof (cases "new_body x c'")
            case (Inl err)
            with pbar barrier tlsc show ?thesis unfolding unf by simp
          next
            case body: (Inr pb)
            show ?thesis
            proof (cases "prepareTemplate x c'")
              case (Inl f)
              with pbar barrier tlsc body show ?thesis
                unfolding unf by (simp split: prod.splits)
            next
              case tmpl: (Inr tmpl)
              show ?thesis
              proof (cases "WaitGroup_Add 0 (NumConns c')")
                case (Inl f)
                with pbar barrier tlsc body tmpl show ?thesis
                  unfolding unf by (simp split: prod.splits)
              next
                case (Inr wg)
                with pbar barrier tlsc body tmpl show ?thesis
                  unfolding unf by (simp add: forget_Duration_def split: prod.splits)
              qed
            qed
          qed
        qed
      qed
    qed
  qed
qed

lemma NewBombardier_counted:
  assumes "NumReqs c = Some k" "NewBombardier x c = Inr b"
  shows "Barrier b = Counting (newCountingCompletionBarrier k) \<and> testType (Conf b) = counted"
proof -
  from NewBombardier_Inr [OF assms(2)] have
    c: "Conf b = snd (checkArgs x c)"
    and nb: "new_barrier x (snd (checkArgs x c)) = Inr (Barrier b)"
    by simp_all
  from checkArgs_fields(1) [of x c] assms(1)
  have n: "NumReqs (snd (checkArgs x c)) = Some k" by simp
  then have t: "testType (snd (checkArgs x c)) = counted"
    by (simp add: testType_def)
  from nb n t have "Barrier b = Counting (newCountingCompletionBarrier k)"
    by (simp add: new_barrier_def)
  with c t show ?thesis by simp
qed

lemma checkArgs_default:
  assumes "NumReqs c = None" "Duration c = None"
  shows "Duration (snd (checkArgs x c)) = Some (defaultTestDuration x)"
    and "testType (snd (checkArgs x c)) = timed"
proof -
  from assms have "Duration (checkOrSetDefaultTestType x c) = Some (defaultTestDuration x)"
    by (simp add: checkOrSetDefaultTestType_def testType_def)
  with checkArgs_fields(2) [of x c]
  show d: "Duration (snd (checkArgs x c)) = Some (defaultTestDuration x)" by simp
  from checkArgs_fields(1) [of x c] assms(1) d
  show "testType (snd (checkArgs x c)) = timed"
    by (simp add: testType_def)
qed

lemma NewBombardier_default:
  assumes "NumReqs c = None" "Duration c = None" "NewBombardier x c = Inr b"
  shows "Barrier b = Timed \<lparr>doneChan = make_chan, closeOnce = False, start = time_Now x,
                            duration = defaultTestDuration x\<rparr>
         \<and> testType (Conf b) = timed"
proof -
  from NewBombardier_Inr [OF assms(3)] have
    c: "Conf b = snd (checkArgs x c)"
    and nb: "new_barrier x (snd (checkArgs x c)) = Inr (Barrier b)"
    by simp_all
  note d = checkArgs_default [OF assms(1,2), of x]
  from nb d have "Barrier b = Timed \<lparr>doneChan = make_chan, closeOnce = False,
      start = time_Now x, duration = defaultTestDuration x\<rparr>"
    by (auto simp: new_barrier_def newTimedCompletionBarrier_def split: if_splits)
  with c d(2) show ?thesis by simp
qed

lemma NewBombardier_test_Config:
  "NewBombardier test_externals test_Config = Inr test_Bombardier"
proof -
  have 1: "checkArgs test_externals test_Config = (None, test_Config)"
    by code_simp
  have 2: "new_bar test_Config = Inr \<lparr>Total = 10000, ShowCounters = True, ShowPercent = True,
      ManualUpdate = True, NotPrint = False, Output = Stdout\<rparr>"
    by code_simp
  have 3: "new_barrier test_externals test_Config
      = Inr (Counting (newCountingCompletionBarrier 10000))"
    by code_simp
  have 4: "generateTLSConfig test_externals test_Config
      = Inr \<lparr>InsecureSkipVerify = False, Certificates = []\<rparr>"
    by code_simp
  have 5: "new_body test_externals test_Config = Inr (Some [], None)"
    by code_simp
  have 6: "prepareTemplate test_externals test_Config = Inr ''Statistics''"
    by code_simp
  have 7: "WaitGroup_Add 0 (NumConns test_Config) = Inr 125"
    by code_simp
  show ?thesis
    unfolding NewBombardier_def 1 2 3 4 5 6 7 prod.case option.case sum.case
    by (simp add: test_Bombardier_def test_Config_def makeHTTPClient_def fhttp_def nhttp1_def
        nhttp2_def)
qed

text \<open>
  C10. A \<^verbatim>\<open>Config\<close> with \<^verbatim>\<open>NumReqs\<close> and \<^verbatim>\<open>Duration\<close> both set is of test type counted;
  every bombardier that \<^verbatim>\<open>NewBombardier\<close> makes from it has the counting barrier for
  \<^verbatim>\<open>NumReqs\<close> requests; and the duration is ignored: with any other duration, or none,
  \<^verbatim>\<open>NewBombardier\<close> returns the same error, panic or bombardier, but for the \<^verbatim>\<open>Duration\<close>
  field kept in the bombardier's copy of the configuration. With neither set,
  \<^verbatim>\<open>checkArgs\<close> leaves the default test duration in \<^verbatim>\<open>Duration\<close>, the test type is then timed,
  and every bombardier made has the timed barrier for the default duration.
\<close>

theorem both_set_runs_counted:
  "(NumReqs c = Some k \<and> Duration c = Some d \<longrightarrow>
      testType c = counted
      \<and> (\<forall>b. NewBombardier x c = Inr b \<longrightarrow>
            Barrier b = Counting (newCountingCompletionBarrier k)
            \<and> testType (Conf b) = counted)
      \<and> (\<forall>d'. forget_Duration (NewBombardier x (c\<lparr>Duration := d'\<rparr>))
                 = forget_Duration (NewBombardier x c)))
   \<and> (NumReqs c = None \<and> Duration c = None \<longrightarrow>
        Duration (snd (checkArgs x c)) = Some (defaultTestDuration x)
        \<and> testType (snd (checkArgs x c)) = timed
        \<and> (\<forall>b. NewBombardier x c = Inr b \<longrightarrow>
              Barrier b = Timed \<lparr>doneChan = make_chan, closeOnce = False, start = time_Now x,
                                  duration = defaultTestDuration x\<rparr>
              \<and> testType (Conf b) = timed))"
proof (intro conjI impI allI)
  assume a: "NumReqs c = Some k \<and> Duration c = Some d"
  then show "testType c = counted" by (simp add: testType_def)
  fix b assume "NewBombardier x c = Inr b"
  with a NewBombardier_counted [of c k x b]
  show "Barrier b = Counting (newCountingCompletionBarrier k)" "testType (Conf b) = counted"
    by simp_all
next
  fix d'
  assume "NumReqs c = Some k \<and> Duration c = Some d"
  then have "NumReqs c \<noteq> None" by simp
  then show "forget_Duration (NewBombardier x (c\<lparr>Duration := d'\<rparr>))
                 = forget_Duration (NewBombardier x c)"
    by (rule NewBombardier_Duration)
next
  assume a: "NumReqs c = None \<and> Duration c = None"
  with checkArgs_default [of c x]
  show "Duration (snd (checkArgs x c)) = Some (defaultTestDuration x)"
    "testType (snd (checkArgs x c)) = timed"
    by simp_all
  fix b assume "NewBombardier x c = Inr b"
  with a NewBombardier_default [of c x b]
  show "Barrier b = Timed \<lparr>doneChan = make_chan, closeOnce = False, start = time_Now x,
                                  duration = defaultTestDuration x\<rparr>"
    "testType (Conf b) = timed"
    by simp_all
qed

theorem both_set_runs_counted_witness:
  "NumReqs test_Config = Some 10000 \<and> Duration test_Config = Some 10000000000
   \<and> testType test_Config = counted
   \<and> map_sum id Barrier (NewBombardier test_externals test_Config)
       = Inr (Counting (newCountingCompletionBarrier 10000))
   \<and> forget_Duration (NewBombardier test_externals (test_Config\<lparr>Duration := Some 5\<rparr>))
       = forget_Duration (NewBombardier test_externals test_Config)
   \<and> testType (snd (checkArgs test_externals (test_Config\<lparr>NumReqs := None, Duration := None\<rparr>)))
       = timed
   \<and> map_sum id Barrier
         (NewBombardier test_externals (test_Config\<lparr>NumReqs := None, Duration := None\<rparr>))
       = Inr (Timed \<lparr>doneChan = make_chan, closeOnce = False, start = 0,
                       duration = 10000000000\<rparr>)"
proof -
  let ?n = "test_Config\<lparr>NumReqs := None, Duration := None\<rparr>"
  have h1: "NumReqs test_Config = Some 10000 \<and> Duration test_Config = Some 10000000000"
    by (simp add: test_Config_def)
  have h2: "NumReqs ?n = None \<and> Duration ?n = None" by simp
  have e1: "map_sum id Barrier (NewBombardier test_externals test_Config)
       = Inr (Counting (newCountingCompletionBarrier 10000))"
    by code_simp
  have e2: "map_sum id Barrier (NewBombardier test_externals ?n)
       = Inr (Timed \<lparr>doneChan = make_chan, closeOnce = False, start = 0,
                       duration = 10000000000\<rparr>)"
    by code_simp
  note th1 = both_set_runs_counted [of test_Config 10000 10000000000 test_externals]
  note th2 = both_set_runs_counted [of ?n 10000 10000000000 test_externals]
  from th1 have "NumReqs test_Config = Some 10000 \<and> Duration test_Config = Some 10000000000 \<longrightarrow>
      testType test_Config = counted
      \<and> (\<forall>b. NewBombardier test_externals test_Config = Inr b \<longrightarrow>
            Barrier b = Counting (newCountingCompletionBarrier 10000)
            \<and> testType (Conf b) = counted)
      \<and> (\<forall>d'. forget_Duration (NewBombardier test_externals (test_Config\<lparr>Duration := d'\<rparr>))
                 = forget_Duration (NewBombardier test_externals test_Config))"
    by (rule conjunct1)
  from this h1 have c: "testType test_Config = counted
      \<and> (\<forall>b. NewBombardier test_externals test_Config = Inr b \<longrightarrow>
            Barrier b = Counting (newCountingCompletionBarrier 10000)
            \<and> testType (Conf b) = counted)
      \<and> (\<forall>d'. forget_Duration (NewBombardier test_externals (test_Config\<lparr>Duration := d'\<rparr>))
                 = forget_Duration (NewBombardier test_externals test_Config))"
    by (rule mp)
  then have c1: "testType test_Config = counted"
    and c3: "forget_Duration (NewBombardier test_externals (test_Config\<lparr>Duration := Some 5\<rparr>))
                 = forget_Duration (NewBombardier test_externals test_Config)"
    by simp_all
  from th2 have "NumReqs ?n = None \<and> Duration ?n = None \<longrightarrow>
        Duration (snd (checkArgs test_externals ?n)) = Some (defaultTestDuration test_externals)
        \<and> testType (snd (checkArgs test_externals ?n)) = timed
        \<and> (\<forall>b. NewBombardier test_externals ?n = Inr b \<longrightarrow>
              Barrier b = Timed \<lparr>doneChan = make_chan, closeOnce = False,
                                  start = time_Now test_externals,
                                  duration = defaultTestDuration test_externals\<rparr>
              \<and> testType (Conf b) = timed)"
    by (rule conjunct2)
  from this h2 have "Duration (snd (checkArgs test_externals ?n))
          = Some (defaultTestDuration test_externals)
        \<and> testType (snd (checkArgs test_externals ?n)) = timed
        \<and> (\<forall>b. NewBombardier test_externals ?n = Inr b \<longrightarrow>
              Barrier b = Timed \<lparr>doneChan = make_chan, closeOnce = False,
                                  start = time_Now test_externals,
                                  duration = defaultTestDuration test_externals\<rparr>
              \<and> testType (Conf b) = timed)"
    by (rule mp)
  then have t: "testType (snd (checkArgs test_externals ?n)) = timed"
    by (elim conjE)
  from h1 c1 e1 c3 t e2 show ?thesis by (intro conjI) (elim conjE, assumption)+
qed


section \<open>Properties of a counted run\<close>

lemma count_list_update:
  "i < length ps \<Longrightarrow>
     count_list (ps[i := q]) p + (if ps ! i = p then 1 else 0)
       = count_list ps p + (if q = p then 1 else 0)"
proof (induction ps arbitrary: i)
  case Nil
  then show ?case by simp
next
  case (Cons a ps)
  show ?case
  proof (cases i)
    case 0
    then show ?thesis by simp
  next
    case (Suc j)
    with Cons.prems have "j < length ps" by simp
    from Cons.IH [OF this] Suc show ?thesis by (auto split: if_splits)
  qed
qed

lemma count_list_less:
  "i < length ps \<Longrightarrow> ps ! i \<noteq> p \<Longrightarrow> count_list ps p < length ps"
proof (induction ps arbitrary: i)
  case Nil
  then show ?case by simp
next
  case (Cons a ps)
  have le: "count_list ps p \<le> length ps" by (rule count_le_length)
  show ?case
  proof (cases i)
    case 0
    with Cons.prems le show ?thesis by simp
  next
    case (Suc j)
    with Cons.prems have "j < length ps" "ps ! j \<noteq> p" by simp_all
    from Cons.IH [OF this] show ?thesis by simp
  qed
qed

lemma count_list_pos:
  "i < length ps \<Longrightarrow> 0 < count_list ps (ps ! i)"
proof -
  assume "i < length ps"
  then have "ps ! i \<in> set ps" by simp
  then have "count_list ps (ps ! i) \<noteq> 0" by (simp only: count_list_0_iff) simp
  then show ?thesis by simp
qed

lemma sum_rank_update:
  "i < length ps \<Longrightarrow>
     sum_list (map rank (ps[i := q])) + rank (ps ! i) = sum_list (map rank ps) + rank q"
proof (induction ps arbitrary: i)
  case Nil
  then show ?case by simp
next
  case (Cons a ps)
  show ?case
  proof (cases i)
    case 0
    then show ?thesis by simp
  next
    case (Suc j)
    with Cons.prems have "j < length ps" by simp
    from Cons.IH [OF this] Suc show ?thesis by simp
  qed
qed

text \<open>
  The effect on the numbers of workers at each position when worker \<open>i\<close> moves from
  \<open>p0\<close> to \<open>q\<close>.
\<close>

lemma workers_at_move:
  assumes "i < length (positions s)" "positions s ! i = p0"
    and "positions s' = (positions s)[i := q]"
  shows "workers_at s' p + (if p0 = p then 1 else 0) = workers_at s p + (if q = p then 1 else 0)"
  using count_list_update [OF assms(1), of q p] assms(2,3)
  by (simp add: workers_at_def)

lemma workers_at_less:
  assumes "i < length (positions s)" "positions s ! i \<noteq> p"
  shows "workers_at s p < length (positions s)"
  using count_list_less [OF assms] by (simp add: workers_at_def)

lemma workers_at_pos:
  assumes "i < length (positions s)" "positions s ! i = p"
  shows "0 < workers_at s p"
  using count_list_pos [OF assms(1)] assms(2) by (simp add: workers_at_def)

lemma unat_succ_no_wrap:
  fixes g :: uint64
  assumes "unat g + 1 < 2 ^ 64"
  shows "unat (g + 1) = unat g + 1"
  using assms by (simp add: unat_word_ariths)

lemma pool_inv_move:
  assumes "pool_inv s" "i < length (positions s)" "positions s ! i \<noteq> Returned"
    and "positions s' = (positions s)[i := q]"
    and "grabbed_true s' = grabbed_true s"
    and "reqsGrabbed (barrier s') = reqsGrabbed (barrier s)"
    and "numReqs (barrier s') = numReqs (barrier s)"
    and "once_inv (barrier s')"
  shows "pool_inv s'"
proof -
  from workers_at_move [OF assms(2) refl assms(4), of Returned] assms(3)
  have "workers_at s Returned \<le> workers_at s' Returned"
    by (simp split: if_splits)
  with assms(1,4-8) show ?thesis
    by (simp add: pool_inv_def)
qed

lemma pool_inv_grab:
  assumes inv: "pool_inv s" and i: "i < length (positions s)"
    and at: "positions s ! i = AtGrabAdd"
  shows "unat (reqsGrabbed (barrier s) + 1) = unat (reqsGrabbed (barrier s)) + 1"
    and "reqsGrabbed (barrier s) + 1 \<le> numReqs (barrier s) \<Longrightarrow>
          grabbed_true s < unat (numReqs (barrier s))
          \<and> pool_inv (s\<lparr>barrier := (barrier s)\<lparr>reqsGrabbed := reqsGrabbed (barrier s) + 1\<rparr>,
                          positions := (positions s)[i := AtPace],
                          grabbed_true := grabbed_true s + 1\<rparr>)"
    and "\<not> reqsGrabbed (barrier s) + 1 \<le> numReqs (barrier s) \<Longrightarrow>
          grabbed_true s = unat (numReqs (barrier s))
          \<and> pool_inv (s\<lparr>barrier := (barrier s)\<lparr>reqsGrabbed := reqsGrabbed (barrier s) + 1\<rparr>,
                          positions := (positions s)[i := Returned]\<rparr>)"
proof -
  let ?g = "reqsGrabbed (barrier s)" and ?K = "numReqs (barrier s)"
  let ?T = "grabbed_true s" and ?R = "workers_at s Returned"
  from inv have o: "once_inv (barrier s)"
    and b: "unat ?K + length (positions s) < 2 ^ 64"
    and tk: "?T \<le> unat ?K" and tg: "?T \<le> unat ?g" and gr: "unat ?g \<le> ?T + ?R"
    and full: "?T < unat ?g \<longrightarrow> ?T = unat ?K"
    by (simp_all add: pool_inv_def)
  from at have "positions s ! i \<noteq> Returned" by simp
  from workers_at_less [OF i this] have r: "?R < length (positions s)" .
  from gr tk r b have "unat ?g + 1 < 2 ^ 64" by linarith
  then show u: "unat (?g + 1) = unat ?g + 1" by (rule unat_succ_no_wrap)
  {
    assume "?g + 1 \<le> ?K"
    with u have le: "unat ?g + 1 \<le> unat ?K" by (simp add: word_le_nat_alt)
    with full tg have eq: "?T = unat ?g" by linarith
    let ?s = "s\<lparr>barrier := (barrier s)\<lparr>reqsGrabbed := ?g + 1\<rparr>,
                 positions := (positions s)[i := AtPace], grabbed_true := ?T + 1\<rparr>"
    from workers_at_move [OF i at, of ?s AtPace Returned]
    have "workers_at ?s Returned = ?R" by simp
    with o b le eq u have "pool_inv ?s"
      by (simp add: pool_inv_def once_inv_update_counters)
    with le eq show "?T < unat ?K \<and> pool_inv ?s" by simp
  next
    assume "\<not> ?g + 1 \<le> ?K"
    with u have gt: "unat ?K < unat ?g + 1" by (simp add: word_le_nat_alt)
    with full tg tk have eq: "?T = unat ?K" by linarith
    let ?s = "s\<lparr>barrier := (barrier s)\<lparr>reqsGrabbed := ?g + 1\<rparr>,
                 positions := (positions s)[i := Returned]\<rparr>"
    from workers_at_move [OF i at, of ?s Returned Returned]
    have "workers_at ?s Returned = ?R + 1" by simp
    with o b gt eq u gr tg have "pool_inv ?s"
      by (simp add: pool_inv_def once_inv_update_counters)
    with eq show "?T = unat ?K \<and> pool_inv ?s" by simp
  }
qed

lemma worker_step_pool_inv:
  assumes inv: "pool_inv s"
  shows "\<exists>s'. worker_step s i r = Inr s' \<and> pool_inv s'
           \<and> numReqs (barrier s') = numReqs (barrier s)
           \<and> length (positions s') = length (positions s)"
proof (cases "length (positions s) \<le> i")
  case True
  with inv show ?thesis by (simp add: worker_step_def)
next
  case False
  then have i: "i < length (positions s)" by simp
  from inv have o: "once_inv (barrier s)" by (simp add: pool_inv_def)
  show ?thesis
  proof (cases "positions s ! i")
    case AtSelect
    let ?q = "if is_closed (doneChan (barrier s)) then Returned else AtGrabAdd"
    let ?s = "s\<lparr>positions := (positions s)[i := ?q]\<rparr>"
    from AtSelect False have st: "worker_step s i r = Inr ?s" by (simp add: worker_step_def)
    from AtSelect have "pool_inv ?s"
      by (intro pool_inv_move [OF inv i, of ?s ?q]) (simp_all add: o)
    with st show ?thesis by simp
  next
    case AtGrabAdd
    note g = pool_inv_grab [OF inv i AtGrabAdd]
    show ?thesis
    proof (cases "reqsGrabbed (barrier s) + 1 \<le> numReqs (barrier s)")
      case True
      with AtGrabAdd False g(2) [OF True] show ?thesis
        by (simp add: worker_step_def AddUint64_def Let_def)
    next
      case no: False
      with AtGrabAdd False g(3) [OF no] show ?thesis
        by (simp add: worker_step_def AddUint64_def Let_def)
    qed
  next
    case AtPace
    let ?q = "if r = brk then Returned else AtRequest"
    let ?s = "s\<lparr>positions := (positions s)[i := ?q]\<rparr>"
    from AtPace False have st: "worker_step s i r = Inr ?s" by (simp add: worker_step_def)
    from AtPace have "pool_inv ?s"
      by (intro pool_inv_move [OF inv i, of ?s ?q]) (simp_all add: o)
    with st show ?thesis by simp
  next
    case AtRequest
    let ?s = "s\<lparr>positions := (positions s)[i := AtDoneAdd], issued := issued s + 1\<rparr>"
    from AtRequest False have st: "worker_step s i r = Inr ?s" by (simp add: worker_step_def)
    from AtRequest have "pool_inv ?s"
      by (intro pool_inv_move [OF inv i, of ?s AtDoneAdd]) (simp_all add: o)
    with st show ?thesis by simp
  next
    case AtDoneAdd
    let ?d = "reqsDone (barrier s) + 1"
    let ?q = "if ?d = numReqs (barrier s) then AtCloseOnce else AtSelect"
    let ?s = "s\<lparr>barrier := (barrier s)\<lparr>reqsDone := ?d\<rparr>, positions := (positions s)[i := ?q]\<rparr>"
    from AtDoneAdd False have st: "worker_step s i r = Inr ?s"
      by (simp add: worker_step_def AddUint64_def Let_def)
    from AtDoneAdd have "pool_inv ?s"
      by (intro pool_inv_move [OF inv i, of ?s ?q]) (simp_all add: o once_inv_update_counters)
    with st show ?thesis by simp
  next
    case AtCloseOnce
    let ?b = "(barrier s)\<lparr>doneChan := \<lparr>is_closed = True, closes = 1\<rparr>, closeOnce := True\<rparr>"
    let ?s = "s\<lparr>barrier := ?b, positions := (positions s)[i := AtSelect]\<rparr>"
    from AtCloseOnce False closeOnce_Do_close_eq [OF o]
    have st: "worker_step s i r = Inr ?s" by (simp add: worker_step_def)
    from AtCloseOnce have "pool_inv ?s"
      by (intro pool_inv_move [OF inv i, of ?s AtSelect]) (simp_all add: once_inv_def)
    with st show ?thesis by simp
  next
    case Returned
    with False inv show ?thesis by (simp add: worker_step_def)
  qed
qed

lemma exec_pool_inv:
  assumes inv: "pool_inv s"
  shows "\<exists>s'. exec s e = Inr s' \<and> pool_inv s'
           \<and> numReqs (barrier s') = numReqs (barrier s)
           \<and> length (positions s') = length (positions s)"
proof (cases e)
  case (Step i r)
  with worker_step_pool_inv [OF inv, of i r] show ?thesis by simp
next
  case ExternalCancel
  from inv have o: "once_inv (barrier s)" by (simp add: pool_inv_def)
  let ?b = "(barrier s)\<lparr>doneChan := \<lparr>is_closed = True, closes = 1\<rparr>, closeOnce := True\<rparr>"
  from ExternalCancel closeOnce_Do_close_eq [OF o]
  have st: "exec s e = Inr (s\<lparr>barrier := ?b\<rparr>)" by (simp add: counting_Cancel_def)
  from inv have "pool_inv (s\<lparr>barrier := ?b\<rparr>)"
    by (simp add: pool_inv_def once_inv_def workers_at_def)
  with st show ?thesis by simp
qed

lemma run_pool_inv:
  assumes "pool_inv s"
  shows "\<exists>s'. run s es = Inr s' \<and> pool_inv s'
           \<and> numReqs (barrier s') = numReqs (barrier s)
           \<and> length (positions s') = length (positions s)"
  using assms
proof (induction es arbitrary: s)
  case Nil
  then show ?case by simp
next
  case (Cons e es)
  from exec_pool_inv [OF Cons.prems, of e] obtain s1 where
    s1: "exec s e = Inr s1" "pool_inv s1" "numReqs (barrier s1) = numReqs (barrier s)"
      "length (positions s1) = length (positions s)"
    by (elim exE conjE)
  from Cons.IH [OF s1(2)] s1 show ?case by simp
qed

lemma pool_inv_Bombard_pool:
  assumes "unat K + N < 2 ^ 64"
  shows "pool_inv (Bombard_pool K N)"
  using assms
  by (simp add: pool_inv_def Bombard_pool_def once_inv_new_counting)
    (simp add: newCountingCompletionBarrier_def)

lemma count_list_at:
  assumes "i < length ps" "ps ! i = p0"
  shows "0 < count_list ps p0"
  using count_list_pos [OF assms(1)] assms(2) by simp

lemma count_list_after:
  assumes "i < length ps" "ps ! i = p0" "p0 \<noteq> q"
  shows "count_list (ps[i := q]) p =
           (if p = q then count_list ps p + 1
            else if p = p0 then count_list ps p - 1
            else count_list ps p)"
  using count_list_update [OF assms(1), of q p] assms(2,3) count_list_at [OF assms(1,2)]
  by (auto split: if_splits)

lemma flow_inv_step:
  assumes inv: "pool_inv s" and flow: "flow_inv s"
  shows "\<exists>s'. worker_step s i cont = Inr s' \<and> flow_inv s'"
proof (cases "length (positions s) \<le> i")
  case True
  with flow show ?thesis by (simp add: worker_step_def)
next
  case False
  then have i: "i < length (positions s)" by simp
  let ?T = "grabbed_true s" and ?I = "issued s"
  let ?K = "numReqs (barrier s)" and ?D = "reqsDone (barrier s)"
  let ?closed = "is_closed (doneChan (barrier s))"
  from inv have o: "once_inv (barrier s)" and tk: "?T \<le> unat ?K"
    and b: "unat ?K + length (positions s) < 2 ^ 64"
    by (simp_all add: pool_inv_def)
  note f = flow [unfolded flow_inv_def workers_at_def]
  have f1: "?T = ?I + count_list (positions s) AtPace + count_list (positions s) AtRequest"
    by (rule f [THEN conjunct1])
  have f2: "?I = unat ?D + count_list (positions s) AtDoneAdd"
    by (rule f [THEN conjunct2, THEN conjunct1])
  have f3: "?closed \<or> 0 < count_list (positions s) AtCloseOnce \<longrightarrow> unat ?K \<le> unat ?D"
    by (rule f [THEN conjunct2, THEN conjunct2, THEN conjunct1])
  have f4: "0 < count_list (positions s) Returned \<longrightarrow> ?closed \<or> ?T = unat ?K"
    by (rule f [THEN conjunct2, THEN conjunct2, THEN conjunct2])
  show ?thesis
  proof (cases "positions s ! i")
    case AtSelect
    show ?thesis
    proof (cases ?closed)
      case True
      let ?s = "s\<lparr>positions := (positions s)[i := Returned]\<rparr>"
      from AtSelect False True have st: "worker_step s i cont = Inr ?s"
        by (simp add: worker_step_def)
      note w = count_list_after [OF i AtSelect] and pos = count_list_at [OF i AtSelect]
      from f1 f2 f3 f4 True have "flow_inv ?s"
        by (simp add: flow_inv_def workers_at_def w)
      with st show ?thesis by simp
    next
      case still_open: False
      let ?s = "s\<lparr>positions := (positions s)[i := AtGrabAdd]\<rparr>"
      from AtSelect False still_open have st: "worker_step s i cont = Inr ?s"
        by (simp add: worker_step_def)
      note w = count_list_after [OF i AtSelect] and pos = count_list_at [OF i AtSelect]
      from f1 f2 f3 f4 have "flow_inv ?s"
        by (simp add: flow_inv_def workers_at_def w)
      with st show ?thesis by simp
    qed
  next
    case AtGrabAdd
    note g = pool_inv_grab [OF inv i AtGrabAdd]
    show ?thesis
    proof (cases "reqsGrabbed (barrier s) + 1 \<le> numReqs (barrier s)")
      case True
      let ?s = "s\<lparr>barrier := (barrier s)\<lparr>reqsGrabbed := reqsGrabbed (barrier s) + 1\<rparr>,
                   positions := (positions s)[i := AtPace],
                   grabbed_true := grabbed_true s + 1\<rparr>"
      from AtGrabAdd False True have st: "worker_step s i cont = Inr ?s"
        by (simp add: worker_step_def AddUint64_def Let_def)
      note w = count_list_after [OF i AtGrabAdd] and pos = count_list_at [OF i AtGrabAdd]
      from g(2) [OF True] have "?T < unat ?K" by simp
      with f1 f2 f3 f4 have "flow_inv ?s"
        by (simp add: flow_inv_def workers_at_def w)
      with st show ?thesis by simp
    next
      case no: False
      let ?s = "s\<lparr>barrier := (barrier s)\<lparr>reqsGrabbed := reqsGrabbed (barrier s) + 1\<rparr>,
                   positions := (positions s)[i := Returned]\<rparr>"
      from AtGrabAdd False no have st: "worker_step s i cont = Inr ?s"
        by (simp add: worker_step_def AddUint64_def Let_def)
      note w = count_list_after [OF i AtGrabAdd] and pos = count_list_at [OF i AtGrabAdd]
      from g(3) [OF no] have "?T = unat ?K" by simp
      with f1 f2 f3 f4 have "flow_inv ?s"
        by (simp add: flow_inv_def workers_at_def w)
      with st show ?thesis by simp
    qed
  next
    case AtPace
    let ?s = "s\<lparr>positions := (positions s)[i := AtRequest]\<rparr>"
    from AtPace False have st: "worker_step s i cont = Inr ?s" by (simp add: worker_step_def)
    note w = count_list_after [OF i AtPace] and pos = count_list_at [OF i AtPace]
    from f1 f2 f3 f4 pos have "flow_inv ?s"
      by (simp add: flow_inv_def workers_at_def w)
    with st show ?thesis by simp
  next
    case AtRequest
    let ?s = "s\<lparr>positions := (positions s)[i := AtDoneAdd], issued := issued s + 1\<rparr>"
    from AtRequest False have st: "worker_step s i cont = Inr ?s" by (simp add: worker_step_def)
    note w = count_list_after [OF i AtRequest] and pos = count_list_at [OF i AtRequest]
    from f1 f2 f3 f4 pos have "flow_inv ?s"
      by (simp add: flow_inv_def workers_at_def w)
    with st show ?thesis by simp
  next
    case AtDoneAdd
    from count_list_at [OF i AtDoneAdd] f1 f2 tk b have "unat ?D + 1 < 2 ^ 64" by linarith
    then have u: "unat (?D + 1) = unat ?D + 1" by (rule unat_succ_no_wrap)
    show ?thesis
    proof (cases "?D + 1 = ?K")
      case True
      let ?s = "s\<lparr>barrier := (barrier s)\<lparr>reqsDone := ?D + 1\<rparr>,
                   positions := (positions s)[i := AtCloseOnce]\<rparr>"
      from AtDoneAdd False True have st: "worker_step s i cont = Inr ?s"
        by (simp add: worker_step_def AddUint64_def Let_def)
      note w = count_list_after [OF i AtDoneAdd] and pos = count_list_at [OF i AtDoneAdd]
      from True u have k: "unat ?K = unat ?D + 1" by simp
      from f1 f2 f3 f4 pos have "flow_inv ?s"
        by (simp add: flow_inv_def workers_at_def w u k)
      with st show ?thesis by simp
    next
      case ne: False
      let ?s = "s\<lparr>barrier := (barrier s)\<lparr>reqsDone := ?D + 1\<rparr>,
                   positions := (positions s)[i := AtSelect]\<rparr>"
      from AtDoneAdd False ne have st: "worker_step s i cont = Inr ?s"
        by (simp add: worker_step_def AddUint64_def Let_def)
      note w = count_list_after [OF i AtDoneAdd] and pos = count_list_at [OF i AtDoneAdd]
      from f1 f2 f3 f4 pos have "flow_inv ?s"
        by (auto simp: flow_inv_def workers_at_def w u)
      with st show ?thesis by simp
    qed
  next
    case AtCloseOnce
    let ?b = "(barrier s)\<lparr>doneChan := \<lparr>is_closed = True, closes = 1\<rparr>, closeOnce := True\<rparr>"
    let ?s = "s\<lparr>barrier := ?b, positions := (positions s)[i := AtSelect]\<rparr>"
    from AtCloseOnce False closeOnce_Do_close_eq [OF o]
    have st: "worker_step s i cont = Inr ?s" by (simp add: worker_step_def)
    note w = count_list_after [OF i AtCloseOnce] and pos = count_list_at [OF i AtCloseOnce]
    from f1 f2 f3 f4 pos have "flow_inv ?s"
      by (simp add: flow_inv_def workers_at_def w)
    with st show ?thesis by simp
  next
    case Returned
    with False flow show ?thesis by (simp add: worker_step_def)
  qed
qed

lemma flow_inv_run:
  assumes "pool_inv s" "flow_inv s" "undisturbed es"
  shows "\<exists>s'. run s es = Inr s' \<and> pool_inv s' \<and> flow_inv s'
           \<and> numReqs (barrier s') = numReqs (barrier s)
           \<and> length (positions s') = length (positions s)"
  using assms
proof (induction es arbitrary: s)
  case Nil
  then show ?case by simp
next
  case (Cons e es)
  from Cons.prems(3) obtain i where e: "e = Step i cont" and u: "undisturbed es"
    by (cases e) simp_all
  from worker_step_pool_inv [OF Cons.prems(1), of i cont] obtain s1 where
    s1: "worker_step s i cont = Inr s1" "pool_inv s1"
      "numReqs (barrier s1) = numReqs (barrier s)"
      "length (positions s1) = length (positions s)"
    by (elim exE conjE)
  from flow_inv_step [OF Cons.prems(1,2), of i] s1(1) have f: "flow_inv s1" by simp
  from Cons.IH [OF s1(2) f u] s1 e show ?case by simp
qed

lemma flow_inv_Bombard_pool: "flow_inv (Bombard_pool K N)"
  by (simp add: flow_inv_def Bombard_pool_def workers_at_def count_list_0_iff
      newCountingCompletionBarrier_def make_chan_def)

lemma all_returned_workers_at:
  assumes "all_returned s"
  shows "workers_at s Returned = length (positions s)"
    and "workers_at s AtPace = 0" and "workers_at s AtRequest = 0"
proof -
  from assms have a: "\<forall>p \<in> set (positions s). p = Returned"
    by (simp add: all_returned_def list_all_iff)
  then have "AtPace \<notin> set (positions s)" "AtRequest \<notin> set (positions s)" by auto
  then show "workers_at s AtPace = 0" "workers_at s AtRequest = 0"
    by (simp_all add: workers_at_def)
  have "count_list ps Returned = length ps" if "\<forall>p \<in> set ps. p = Returned" for ps
    using that by (induction ps) simp_all
  from this [OF a] show "workers_at s Returned = length (positions s)"
    by (simp add: workers_at_def)
qed

lemma finished_run_issued:
  assumes "pool_inv s" "flow_inv s" "all_returned s" "0 < length (positions s)"
  shows "grabbed_true s = unat (numReqs (barrier s)) \<and> issued s = unat (numReqs (barrier s))"
proof -
  note w = all_returned_workers_at [OF assms(3)]
  note f = assms(2) [unfolded flow_inv_def]
  from f [THEN conjunct1] w have f1: "grabbed_true s = issued s" by simp
  have f2: "issued s = unat (reqsDone (barrier s)) + workers_at s AtDoneAdd"
    by (rule f [THEN conjunct2, THEN conjunct1])
  from f [THEN conjunct2, THEN conjunct2, THEN conjunct1]
  have f3: "is_closed (doneChan (barrier s)) \<longrightarrow>
               unat (numReqs (barrier s)) \<le> unat (reqsDone (barrier s))"
    by simp
  from f [THEN conjunct2, THEN conjunct2, THEN conjunct2] w
  have f4: "0 < length (positions s) \<longrightarrow> is_closed (doneChan (barrier s))
               \<or> grabbed_true s = unat (numReqs (barrier s))"
    by simp
  from assms(1) have tk: "grabbed_true s \<le> unat (numReqs (barrier s))"
    by (simp add: pool_inv_def)
  from f4 assms(4) have "is_closed (doneChan (barrier s))
               \<or> grabbed_true s = unat (numReqs (barrier s))" by simp
  then have "grabbed_true s = unat (numReqs (barrier s))"
  proof
    assume "is_closed (doneChan (barrier s))"
    with f3 have "unat (numReqs (barrier s)) \<le> unat (reqsDone (barrier s))" by simp
    with f1 f2 tk show ?thesis by linarith
  qed
  with f1 show ?thesis by simp
qed

text \<open>
  In every run, cancelled or not, a request is issued only after a grab that returned
  true.
\<close>

lemma issued_le_step:
  assumes inv: "pool_inv s"
    and le: "issued s + workers_at s AtPace + workers_at s AtRequest \<le> grabbed_true s"
    and st: "worker_step s i r = Inr s'"
  shows "issued s' + workers_at s' AtPace + workers_at s' AtRequest \<le> grabbed_true s'"
proof (cases "length (positions s) \<le> i")
  case True
  with le st show ?thesis by (simp add: worker_step_def)
next
  case False
  then have i: "i < length (positions s)" by simp
  from inv have o: "once_inv (barrier s)" by (simp add: pool_inv_def)
  note l = le [unfolded workers_at_def]
  show ?thesis
  proof (cases "positions s ! i")
    case AtSelect
    note w = count_list_after [OF i AtSelect]
    from AtSelect False st l show ?thesis
      by (auto simp: worker_step_def workers_at_def w)
  next
    case AtGrabAdd
    note w = count_list_after [OF i AtGrabAdd]
    from AtGrabAdd False st l show ?thesis
      by (auto simp: worker_step_def workers_at_def w AddUint64_def Let_def split: if_splits)
  next
    case AtPace
    note w = count_list_after [OF i AtPace] and pos = count_list_at [OF i AtPace]
    from AtPace False st l pos show ?thesis
      by (auto simp: worker_step_def workers_at_def w)
  next
    case AtRequest
    note w = count_list_after [OF i AtRequest] and pos = count_list_at [OF i AtRequest]
    from AtRequest False st l pos show ?thesis
      by (auto simp: worker_step_def workers_at_def w)
  next
    case AtDoneAdd
    note w = count_list_after [OF i AtDoneAdd]
    from AtDoneAdd False st l show ?thesis
      by (auto simp: worker_step_def workers_at_def w AddUint64_def Let_def)
  next
    case AtCloseOnce
    note w = count_list_after [OF i AtCloseOnce]
    from AtCloseOnce False st l closeOnce_Do_close_eq [OF o] show ?thesis
      by (auto simp: worker_step_def workers_at_def w)
  next
    case Returned
    with False st le show ?thesis by (simp add: worker_step_def)
  qed
qed

lemma issued_le_run:
  assumes "pool_inv s"
    and "issued s + workers_at s AtPace + workers_at s AtRequest \<le> grabbed_true s"
    and "run s es = Inr s'"
  shows "issued s' \<le> grabbed_true s'"
  using assms
proof (induction es arbitrary: s)
  case Nil
  then show ?case by simp
next
  case (Cons e es)
  from exec_pool_inv [OF Cons.prems(1), of e] obtain s1 where
    s1: "exec s e = Inr s1" "pool_inv s1"
    by (elim exE conjE)
  with Cons.prems(3) have r: "run s1 es = Inr s'" by simp
  have "issued s1 + workers_at s1 AtPace + workers_at s1 AtRequest \<le> grabbed_true s1"
  proof (cases e)
    case (Step i r)
    with s1(1) have "worker_step s i r = Inr s1" by simp
    from issued_le_step [OF Cons.prems(1,2) this] show ?thesis .
  next
    case ExternalCancel
    from Cons.prems(1) have o: "once_inv (barrier s)" by (simp add: pool_inv_def)
    from ExternalCancel s1(1) closeOnce_Do_close_eq [OF o] Cons.prems(2) show ?thesis
      by (auto simp: counting_Cancel_def workers_at_def)
  qed
  from Cons.IH [OF s1(2) this r] show ?case .
qed

text \<open>Every step of a worker that has not returned lowers \<open>steps_left\<close>.\<close>

lemma steps_left_step:
  assumes inv: "pool_inv s" and i: "i < length (positions s)"
    and nr: "positions s ! i \<noteq> Returned" and st: "worker_step s i r = Inr s'"
  shows "steps_left s' < steps_left s"
proof -
  from inv have o: "once_inv (barrier s)" and tk: "grabbed_true s \<le> unat (numReqs (barrier s))"
    by (simp_all add: pool_inv_def)
  note u = sum_rank_update [OF i]
  show ?thesis
  proof (cases "positions s ! i")
    case AtSelect
    from AtSelect i st u [of Returned] u [of AtGrabAdd] show ?thesis
      by (auto simp: worker_step_def steps_left_def split: if_splits)
  next
    case AtGrabAdd
    note g = pool_inv_grab [OF inv i AtGrabAdd]
    show ?thesis
    proof (cases "reqsGrabbed (barrier s) + 1 \<le> numReqs (barrier s)")
      case True
      from g(2) [OF True] have "grabbed_true s < unat (numReqs (barrier s))" by simp
      with AtGrabAdd i st u [of AtPace] True show ?thesis
        by (auto simp: worker_step_def steps_left_def AddUint64_def Let_def)
    next
      case False
      with AtGrabAdd i st u [of Returned] show ?thesis
        by (auto simp: worker_step_def steps_left_def AddUint64_def Let_def)
    qed
  next
    case AtPace
    from AtPace i st u [of Returned] u [of AtRequest] show ?thesis
      by (auto simp: worker_step_def steps_left_def split: if_splits)
  next
    case AtRequest
    from AtRequest i st u [of AtDoneAdd] show ?thesis
      by (auto simp: worker_step_def steps_left_def)
  next
    case AtDoneAdd
    from AtDoneAdd i st u [of AtCloseOnce] u [of AtSelect] show ?thesis
      by (auto simp: worker_step_def steps_left_def AddUint64_def Let_def split: if_splits)
  next
    case AtCloseOnce
    from AtCloseOnce i st u [of AtSelect] closeOnce_Do_close_eq [OF o] show ?thesis
      by (auto simp: worker_step_def steps_left_def)
  next
    case Returned
    with nr show ?thesis by simp
  qed
qed

lemma effective_steps_bounded:
  assumes "pool_inv s" "effective s es"
  shows "length (filter is_Step es) \<le> steps_left s"
  using assms
proof (induction es arbitrary: s)
  case Nil
  then show ?case by simp
next
  case (Cons e es)
  from exec_pool_inv [OF Cons.prems(1), of e] obtain s1 where
    s1: "exec s e = Inr s1" "pool_inv s1"
    by (elim exE conjE)
  with Cons.prems(2) have c: "can_step s e" and e1: "effective s1 es" by simp_all
  from Cons.IH [OF s1(2) e1] have ih: "length (filter is_Step es) \<le> steps_left s1" .
  show ?case
  proof (cases e)
    case (Step i r)
    with c have "i < length (positions s)" "positions s ! i \<noteq> Returned"
      by (simp_all add: can_step_def)
    moreover from Step s1(1) have "worker_step s i r = Inr s1" by simp
    ultimately have "steps_left s1 < steps_left s"
      by (rule steps_left_step [OF Cons.prems(1)])
    with ih Step show ?thesis by simp
  next
    case ExternalCancel
    from Cons.prems(1) have o: "once_inv (barrier s)" by (simp add: pool_inv_def)
    from ExternalCancel s1(1) closeOnce_Do_close_eq [OF o]
    have "steps_left s1 = steps_left s"
      by (auto simp: counting_Cancel_def steps_left_def)
    with ih ExternalCancel show ?thesis by simp
  qed
qed

lemma steps_left_Bombard_pool: "steps_left (Bombard_pool K N) = 6 * unat K + 2 * N"
proof -
  have "sum_list (map rank (replicate N AtSelect)) = 2 * N"
    by (induction N) simp_all
  then show ?thesis
    by (simp add: steps_left_def Bombard_pool_def newCountingCompletionBarrier_def)
qed

text \<open>
  From every state of an undisturbed run the workers can go on, undisturbed, until all of
  them have returned.
\<close>

lemma run_to_the_end:
  assumes "pool_inv s" "flow_inv s"
  shows "\<exists>es s'. undisturbed es \<and> effective s es \<and> run s es = Inr s' \<and> all_returned s'"
  using assms
proof (induction "steps_left s" arbitrary: s rule: less_induct)
  case less
  show ?case
  proof (cases "all_returned s")
    case True
    then have "undisturbed [] \<and> effective s [] \<and> run s [] = Inr s \<and> all_returned s"
      by simp
    then show ?thesis by (intro exI)
  next
    case False
    then obtain i where i: "i < length (positions s)" and nr: "positions s ! i \<noteq> Returned"
      by (auto simp: all_returned_def list_all_length)
    from worker_step_pool_inv [OF less.prems(1), of i cont] obtain s1 where
      s1: "worker_step s i cont = Inr s1" "pool_inv s1"
      by (elim exE conjE)
    from flow_inv_step [OF less.prems, of i] s1(1) have f1: "flow_inv s1" by simp
    from steps_left_step [OF less.prems(1) i nr s1(1)] have "steps_left s1 < steps_left s" .
    from less.hyps [OF this s1(2) f1] obtain es s' where
      r: "undisturbed es" "effective s1 es" "run s1 es = Inr s'" "all_returned s'"
      by (elim exE conjE)
    from r s1(1) i nr have "undisturbed (Step i cont # es) \<and> effective s (Step i cont # es)
        \<and> run s (Step i cont # es) = Inr s' \<and> all_returned s'"
      by (simp add: can_step_def)
    then show ?thesis by (intro exI)
  qed
qed

text \<open>
  The two steps of \<^verbatim>\<open>tryGrabWork\<close> and of \<^verbatim>\<open>jobDone\<close>, made with nothing in between, are the
  calls as the barrier has them.
\<close>

lemma steps_are_tryGrabWork:
  assumes "i < length (positions s)" "positions s ! i = AtSelect"
  shows "run s [Step i r, Step i r'] =
           Inr (s\<lparr>barrier := snd (counting_tryGrabWork (barrier s)),
                  positions := (positions s)
                    [i := if fst (counting_tryGrabWork (barrier s)) then AtPace else Returned],
                  grabbed_true := grabbed_true s
                    + (if fst (counting_tryGrabWork (barrier s)) then 1 else 0)\<rparr>)"
  using assms
  by (simp add: worker_step_def counting_tryGrabWork_def AddUint64_def Let_def)

lemma steps_are_jobDone:
  assumes "i < length (positions s)" "positions s ! i = AtDoneAdd"
  shows "run s (if reqsDone (barrier s) + 1 = numReqs (barrier s)
                then [Step i r, Step i r2] else [Step i r])
           = map_sum id (\<lambda>b. s\<lparr>barrier := b, positions := (positions s)[i := AtSelect]\<rparr>)
               (counting_jobDone (barrier s))"
  using assms
  by (auto simp: worker_step_def counting_jobDone_def AddUint64_def Let_def
      split: sum.splits)

lemma run_append:
  "run s (es @ fs) = (case run s es of Inl f \<Rightarrow> Inl f | Inr s' \<Rightarrow> run s' fs)"
  by (induction es arbitrary: s) (simp_all split: sum.splits)

lemma full_turn_run:
  assumes "\<not> is_closed (doneChan b)" "reqsGrabbed b + 1 \<le> numReqs b"
    and "reqsDone b + 1 \<noteq> numReqs b"
  shows "run \<lparr>barrier = b, positions = AtSelect # ps, grabbed_true = T, issued = I\<rparr>
             (full_turn 0)
           = Inr \<lparr>barrier = b\<lparr>reqsGrabbed := reqsGrabbed b + 1, reqsDone := reqsDone b + 1\<rparr>,
                   positions = AtSelect # ps, grabbed_true = T + 1, issued = I + 1\<rparr>"
  using assms
  by (simp add: full_turn_def worker_step_def AddUint64_def Let_def)

lemma of_nat_below_max:
  assumes "m + 1 < 2 ^ 64 - 1"
  shows "(of_nat m :: uint64) + 1 \<noteq> - 1"
proof
  assume "(of_nat m :: uint64) + 1 = - 1"
  then have "(of_nat (m + 1) :: uint64) = - 1" by (simp only: of_nat_add of_nat_1)
  then have "unat (of_nat (m + 1) :: uint64) = unat (- 1 :: uint64)" by (rule arg_cong)
  moreover have "unat (of_nat (m + 1) :: uint64) = (m + 1) mod 2 ^ LENGTH(64)"
    by (rule unat_of_nat)
  moreover from assms have "(m + 1) mod 2 ^ LENGTH(64) = m + 1" by simp
  moreover have "unat (- 1 :: uint64) = 2 ^ 64 - 1"
    by (simp add: unsigned_minus_1_eq_mask mask_eq_exp_minus_1)
  ultimately have "m + 1 = 2 ^ 64 - 1" by (simp only:)
  with assms show False by simp
qed

lemma full_turns_run:
  assumes "\<not> is_closed (doneChan b)" "numReqs b = - 1"
    and "reqsGrabbed b = of_nat m" "reqsDone b = of_nat m" "m + n < 2 ^ 64 - 1"
  shows "run \<lparr>barrier = b, positions = AtSelect # ps, grabbed_true = T, issued = I\<rparr>
             (concat (replicate n (full_turn 0)))
           = Inr \<lparr>barrier = b\<lparr>reqsGrabbed := of_nat (m + n), reqsDone := of_nat (m + n)\<rparr>,
                   positions = AtSelect # ps, grabbed_true = T + n, issued = I + n\<rparr>"
  using assms
proof (induction n arbitrary: b m T I)
  case 0
  then have "b\<lparr>reqsGrabbed := of_nat m, reqsDone := of_nat m\<rparr> = b"
    by (cases b) simp
  then show ?case by simp
next
  case (Suc n)
  let ?b = "b\<lparr>reqsGrabbed := reqsGrabbed b + 1, reqsDone := reqsDone b + 1\<rparr>"
  from Suc.prems(5) have "m + 1 < 2 ^ 64 - 1" by simp
  from of_nat_below_max [OF this] Suc.prems(2,4)
  have ne: "reqsDone b + 1 \<noteq> numReqs b" by simp
  from Suc.prems(2) have le: "reqsGrabbed b + 1 \<le> numReqs b" by simp
  note t = full_turn_run [OF Suc.prems(1) le ne, of ps T I]
  have "run \<lparr>barrier = ?b, positions = AtSelect # ps, grabbed_true = T + 1, issued = I + 1\<rparr>
             (concat (replicate n (full_turn 0)))
           = Inr \<lparr>barrier = ?b\<lparr>reqsGrabbed := of_nat (Suc m + n),
                               reqsDone := of_nat (Suc m + n)\<rparr>,
                   positions = AtSelect # ps, grabbed_true = T + 1 + n, issued = I + 1 + n\<rparr>"
    using Suc.prems by (intro Suc.IH) simp_all
  with t show ?case by (simp add: run_append)
qed

text \<open>
  C1, as amended. In a counted run for \<open>K\<close> requests with \<open>N\<close> workers, where
  \<open>K + N < 2^64\<close>, whatever the interleaving of the workers' steps, and whether or not the run
  is cancelled or the limiter breaks: no step panics, at most \<open>K\<close> calls of \<^verbatim>\<open>tryGrabWork\<close>
  return true, and no more requests are issued than calls have returned true. If the run is
  not cancelled and the limiter never breaks, then once all workers (at least one) have
  returned, exactly \<open>K\<close> calls have returned true and exactly \<open>K\<close> requests have been issued.
  The workers make at most \<open>6 K + 2 N\<close> steps before all of them have returned, and a run
  that is not disturbed can always be continued to that end.
\<close>

theorem counted_run_issues_numReqs:
  assumes "unat K + N < 2 ^ 64"
  shows "(\<exists>s. run (Bombard_pool K N) es = Inr s
            \<and> grabbed_true s \<le> unat K \<and> issued s \<le> grabbed_true s
            \<and> (undisturbed es \<and> all_returned s \<and> 0 < N
                 \<longrightarrow> grabbed_true s = unat K \<and> issued s = unat K))
         \<and> (effective (Bombard_pool K N) es
              \<longrightarrow> length (filter is_Step es) \<le> 6 * unat K + 2 * N)
         \<and> (\<exists>es' s'. undisturbed es' \<and> run (Bombard_pool K N) es' = Inr s' \<and> all_returned s')"
proof -
  let ?s0 = "Bombard_pool K N"
  note p0 = pool_inv_Bombard_pool [OF assms]
  note f0 = flow_inv_Bombard_pool [of K N]
  have k0: "numReqs (barrier ?s0) = K" and n0: "length (positions ?s0) = N"
    by (simp_all add: Bombard_pool_def newCountingCompletionBarrier_def)
  from run_pool_inv [OF p0, of es] k0 n0 obtain s where
    s: "run ?s0 es = Inr s" "pool_inv s" "numReqs (barrier s) = K" "length (positions s) = N"
    by (elim exE conjE) simp
  from s(2,3) have a: "grabbed_true s \<le> unat K" by (simp add: pool_inv_def)
  have "issued ?s0 + workers_at ?s0 AtPace + workers_at ?s0 AtRequest \<le> grabbed_true ?s0"
    by (simp add: Bombard_pool_def workers_at_def)
  from issued_le_run [OF p0 this s(1)] have b: "issued s \<le> grabbed_true s" .
  have c: "grabbed_true s = unat K \<and> issued s = unat K"
    if "undisturbed es \<and> all_returned s \<and> 0 < N"
  proof -
    from that have u: "undisturbed es" and r: "all_returned s" and n: "0 < N" by simp_all
    from flow_inv_run [OF p0 f0 u] s(1) have "flow_inv s" by simp
    from finished_run_issued [OF s(2) this r] n s(3,4) show ?thesis by simp
  qed
  from s(1) a b c have 1: "\<exists>s. run ?s0 es = Inr s
            \<and> grabbed_true s \<le> unat K \<and> issued s \<le> grabbed_true s
            \<and> (undisturbed es \<and> all_returned s \<and> 0 < N
                 \<longrightarrow> grabbed_true s = unat K \<and> issued s = unat K)"
    by (intro exI [of _ s] conjI impI) simp_all
  have 2: "effective ?s0 es \<longrightarrow> length (filter is_Step es) \<le> 6 * unat K + 2 * N"
    using effective_steps_bounded [OF p0, of es] by (simp add: steps_left_Bombard_pool)
  from run_to_the_end [OF p0 f0] obtain es' s' where
    "undisturbed es'" "run ?s0 es' = Inr s'" "all_returned s'"
    by (elim exE conjE)
  then have 3: "\<exists>es' s'. undisturbed es' \<and> run ?s0 es' = Inr s' \<and> all_returned s'"
    by (intro exI [of _ es'] exI [of _ s'] conjI)
  from 1 2 3 show ?thesis by (intro conjI)
qed

theorem counted_run_issues_numReqs_witness:
  "unat (2 :: uint64) + 2 < 2 ^ 64
   \<and> run (Bombard_pool 2 2)
        (full_turn 0 @ full_turn 1 @ [Step 0 cont, Step 1 cont, Step 0 cont, Step 1 cont])
       = Inr \<lparr>barrier = \<lparr>doneChan = \<lparr>is_closed = True, closes = 1\<rparr>, closeOnce = True,
                          numReqs = 2, reqsGrabbed = 3, reqsDone = 2\<rparr>,
               positions = [Returned, Returned], grabbed_true = 2, issued = 2\<rparr>
   \<and> undisturbed
        (full_turn 0 @ full_turn 1 @ [Step 0 cont, Step 1 cont, Step 0 cont, Step 1 cont])
   \<and> effective (Bombard_pool 2 2)
        (full_turn 0 @ full_turn 1 @ [Step 0 cont, Step 1 cont, Step 0 cont, Step 1 cont])
   \<and> length (filter is_Step
        (full_turn 0 @ full_turn 1 @ [Step 0 cont, Step 1 cont, Step 0 cont, Step 1 cont]))
       \<le> 6 * unat (2 :: uint64) + 2 * 2"
proof -
  let ?es = "full_turn 0 @ full_turn 1 @ [Step 0 cont, Step 1 cont, Step 0 cont, Step 1 cont]"
  let ?s = "\<lparr>barrier = \<lparr>doneChan = \<lparr>is_closed = True, closes = 1\<rparr>, closeOnce = True,
                          numReqs = 2 :: uint64, reqsGrabbed = 3, reqsDone = 2\<rparr>,
               positions = [Returned, Returned], grabbed_true = 2, issued = 2\<rparr>"
  have h: "unat (2 :: uint64) + 2 < 2 ^ 64" by simp
  have r: "run (Bombard_pool 2 2) ?es = Inr ?s"
    by code_simp
  have u: "undisturbed ?es" by (simp add: full_turn_def)
  have e: "effective (Bombard_pool 2 2) ?es" by code_simp
  note th = counted_run_issues_numReqs [OF h, of ?es]
  from th have "effective (Bombard_pool 2 2) ?es
      \<longrightarrow> length (filter is_Step ?es) \<le> 6 * unat (2 :: uint64) + 2 * 2"
    by (elim conjE)
  from this e have l: "length (filter is_Step ?es) \<le> 6 * unat (2 :: uint64) + 2 * 2"
    by (rule mp)
  from h r u e l show ?thesis by (intro conjI)
qed

text \<open>
  The claim as stated fails for \<open>K = 2^64 - 1\<close> requests and two workers. The first
  worker makes \<open>2^64 - 2\<close> full turns and grabs once more, which is the \<open>K\<close>th grab and
  leaves \<^verbatim>\<open>reqsGrabbed\<close> at \<open>2^64 - 1\<close>; the run is not over, since that job is not done.
  The second worker then grabs: the counter wraps to 0, which is at most \<open>K\<close>, and the call
  returns true. It is the call number \<open>K + 1\<close> to do so.
\<close>

theorem counted_run_wraps_counterexample:
  "run (Bombard_pool 18446744073709551615 2)
       (concat (replicate 18446744073709551614 (full_turn 0))
          @ [Step 0 cont, Step 0 cont, Step 1 cont, Step 1 cont])
     = Inr \<lparr>barrier = \<lparr>doneChan = \<lparr>is_closed = False, closes = 0\<rparr>, closeOnce = False,
                        numReqs = 18446744073709551615, reqsGrabbed = 0,
                        reqsDone = 18446744073709551614\<rparr>,
             positions = [AtPace, AtPace],
             grabbed_true = 18446744073709551616, issued = 18446744073709551614\<rparr>
   \<and> \<not> (18446744073709551616 :: nat) \<le> unat (18446744073709551615 :: uint64)"
proof -
  let ?b = "newCountingCompletionBarrier 18446744073709551615"
  have o: "\<not> is_closed (doneChan ?b)" and k: "numReqs ?b = - 1"
    and g: "reqsGrabbed ?b = of_nat 0" and d: "reqsDone ?b = of_nat 0"
    by (simp_all add: newCountingCompletionBarrier_def make_chan_def)
  have n: "0 + 18446744073709551614 < (2 :: nat) ^ 64 - 1" by simp
  have c: "(of_nat (0 + 18446744073709551614) :: uint64) = 18446744073709551614"
    by simp
  have "run \<lparr>barrier = ?b, positions = AtSelect # [AtSelect], grabbed_true = 0, issued = 0\<rparr>
             (concat (replicate 18446744073709551614 (full_turn 0)))
           = Inr \<lparr>barrier = ?b\<lparr>reqsGrabbed := 18446744073709551614,
                               reqsDone := 18446744073709551614\<rparr>,
                   positions = AtSelect # [AtSelect],
                   grabbed_true = 0 + 18446744073709551614,
                   issued = 0 + 18446744073709551614\<rparr>"
    using full_turns_run [OF o k g d n, of "[AtSelect]" 0 0] unfolding c .
  moreover have "Bombard_pool 18446744073709551615 2
      = \<lparr>barrier = ?b, positions = AtSelect # [AtSelect], grabbed_true = 0, issued = 0\<rparr>"
    by (simp add: Bombard_pool_def numeral_2_eq_2)
  ultimately have 1: "run (Bombard_pool 18446744073709551615 2)
             (concat (replicate 18446744073709551614 (full_turn 0)))
           = Inr \<lparr>barrier = ?b\<lparr>reqsGrabbed := 18446744073709551614,
                               reqsDone := 18446744073709551614\<rparr>,
                   positions = [AtSelect, AtSelect],
                   grabbed_true = 18446744073709551614,
                   issued = 18446744073709551614\<rparr>"
    by simp
  have 2: "run \<lparr>barrier = ?b\<lparr>reqsGrabbed := 18446744073709551614,
                               reqsDone := 18446744073709551614\<rparr>,
                   positions = [AtSelect, AtSelect],
                   grabbed_true = 18446744073709551614,
                   issued = 18446744073709551614\<rparr>
             [Step 0 cont, Step 0 cont, Step 1 cont, Step 1 cont]
     = Inr \<lparr>barrier = \<lparr>doneChan = \<lparr>is_closed = False, closes = 0\<rparr>, closeOnce = False,
                        numReqs = 18446744073709551615, reqsGrabbed = 0,
                        reqsDone = 18446744073709551614\<rparr>,
             positions = [AtPace, AtPace],
             grabbed_true = 18446744073709551616, issued = 18446744073709551614\<rparr>"
    by (simp add: worker_step_def AddUint64_def Let_def newCountingCompletionBarrier_def
        make_chan_def)
  have 3: "\<not> (18446744073709551616 :: nat) \<le> unat (18446744073709551615 :: uint64)"
    by simp
  from 1 2 3 show ?thesis by (simp only: run_append sum.case) simp
qed


section \<open>The range of \<^verbatim>\<open>completed()\<close> (src/unnamed/part_000)\<close>

subsection \<open>Rounding to \<^verbatim>\<open>float64\<close>\<close>

lemma bit_length_bounds:
  "0 < n \<Longrightarrow> 0 < bit_length n \<and> 2 ^ (bit_length n - 1) \<le> n \<and> n < 2 ^ bit_length n"
proof (induction n rule: bit_length.induct)
  case (1 n)
  from \<open>0 < n\<close> have b: "bit_length n = Suc (bit_length (n div 2))"
    by (subst bit_length.simps) simp
  show ?case
  proof (cases "n div 2 = 0")
    case True
    with \<open>0 < n\<close> have "n = 1" by presburger
    then show ?thesis by (simp add: b) (simp add: bit_length.simps)
  next
    case False
    with \<open>0 < n\<close> have p: "0 < n div 2" by presburger
    with "1.IH" \<open>0 < n\<close> have ih: "0 < bit_length (n div 2)"
      "2 ^ (bit_length (n div 2) - 1) \<le> n div 2" "n div 2 < 2 ^ bit_length (n div 2)"
      by simp_all
    define b' where "b' = bit_length (n div 2) - 1"
    with ih(1) have b': "bit_length (n div 2) = Suc b'" by simp
    from ih(2,3) have "(2::int) * 2 ^ b' \<le> n" "n < 2 * (2 * 2 ^ b')"
      unfolding b' by simp_all
    then show ?thesis by (simp add: b b')
  qed
qed

lemma ilog2_bounds:
  assumes "0 < x"
  shows "2 powi ilog2 x \<le> x" and "x < 2 powi (ilog2 x + 1)"
proof -
  have "2 powi ilog2 x \<le> x \<and> x < 2 powi (ilog2 x + 1)"
  proof (cases "1 \<le> x")
    case True
    define n where "n = \<lfloor>x\<rfloor>"
    from True have n: "0 < n" by (simp add: n_def)
    define k where "k = bit_length n - 1"
    from bit_length_bounds [OF n] have bl: "bit_length n = Suc k"
      and lo: "2 ^ k \<le> n" and hi: "n < 2 ^ Suc k"
      by (simp_all add: k_def)
    from True have i: "ilog2 x = int k" by (simp add: ilog2_def n_def [symmetric] bl)
    from lo have "real_of_int (2 ^ k) \<le> of_int n" by (simp only: of_int_le_iff)
    also have "of_int n \<le> x" by (simp add: n_def)
    finally have 1: "2 ^ k \<le> x" by simp
    from hi have "n + 1 \<le> 2 ^ Suc k" by simp
    then have "real_of_int (n + 1) \<le> of_int (2 ^ Suc k)" by (simp only: of_int_le_iff)
    moreover have "x < of_int (n + 1)" by (simp add: n_def)
    ultimately have 2: "x < 2 ^ Suc k" by simp
    have "int k + 1 = int (Suc k)" by simp
    with 1 2 show ?thesis
      by (simp only: i power_int_of_nat)
  next
    case False
    with assms have x: "0 < x" "x < 1" by simp_all
    define m where "m = \<lceil>1 / x\<rceil> - 1"
    from x have "1 < 1 / x" by simp
    then have "1 < \<lceil>1 / x\<rceil>" by (simp add: less_ceiling_iff)
    then have m: "0 < m" by (simp add: m_def)
    define k where "k = bit_length m - 1"
    from bit_length_bounds [OF m] have bl: "bit_length m = Suc k"
      and lo: "2 ^ k \<le> m" and hi: "m < 2 ^ Suc k"
      by (simp_all add: k_def)
    from False have i: "ilog2 x = - int (Suc k)" by (simp add: ilog2_def m_def [symmetric] bl)
    have "real_of_int m < 1 / x" unfolding m_def by linarith
    moreover from lo have "real_of_int (2 ^ k) \<le> of_int m" by (simp only: of_int_le_iff)
    then have "(2::real) ^ k \<le> of_int m" by simp
    ultimately have "2 ^ k < 1 / x" by linarith
    with x have "x * 2 ^ k < 1" by (simp add: field_simps)
    then have 2: "x < 1 / 2 ^ k" by (simp add: field_simps)
    have "1 / x \<le> real_of_int (m + 1)" unfolding m_def by simp
    moreover from hi have "m + 1 \<le> 2 ^ Suc k" by simp
    then have "real_of_int (m + 1) \<le> of_int (2 ^ Suc k)" by (simp only: of_int_le_iff)
    then have "real_of_int (m + 1) \<le> 2 ^ Suc k" by simp
    ultimately have "1 / x \<le> 2 ^ Suc k" by linarith
    with x have 1: "1 / 2 ^ Suc k \<le> x" by (simp add: field_simps)
    have a: "(2::real) powi (- int (Suc k)) = 1 / 2 ^ Suc k"
      by (simp only: power_int_minus power_int_of_nat inverse_eq_divide)
    have "- int (Suc k) + 1 = - int k" by simp
    then have b: "(2::real) powi (- int (Suc k) + 1) = 1 / 2 ^ k"
      by (simp only: power_int_minus power_int_of_nat inverse_eq_divide)
    from 1 2 show ?thesis by (simp only: i a b)
  qed
  then show "2 powi ilog2 x \<le> x" and "x < 2 powi (ilog2 x + 1)" by simp_all
qed

lemma ilog2_mono:
  assumes "0 < x" "x \<le> y"
  shows "ilog2 x \<le> ilog2 y"
proof (rule ccontr)
  assume "\<not> ilog2 x \<le> ilog2 y"
  then have "ilog2 y + 1 \<le> ilog2 x" by simp
  then have "(2::real) powi (ilog2 y + 1) \<le> 2 powi ilog2 x"
    by (intro power_int_increasing) simp_all
  moreover from assms have "0 < y" by simp
  note ilog2_bounds(2) [OF this] ilog2_bounds(1) [OF assms(1)]
  ultimately show False using assms(2) by linarith
qed

lemma round_half_even_bounds: "\<lfloor>y\<rfloor> \<le> round_half_even y" "round_half_even y \<le> \<lfloor>y\<rfloor> + 1"
  by (simp_all add: round_half_even_def Let_def)

lemma round_half_even_of_int: "round_half_even (of_int n) = n"
  by (simp add: round_half_even_def)

lemma round_half_even_mono:
  assumes "x \<le> y"
  shows "round_half_even x \<le> round_half_even y"
proof (cases "\<lfloor>x\<rfloor> = \<lfloor>y\<rfloor>")
  case True
  with assms show ?thesis by (simp add: round_half_even_def Let_def)
next
  case False
  with assms have "\<lfloor>x\<rfloor> + 1 \<le> \<lfloor>y\<rfloor>" using floor_mono [OF assms] by linarith
  with round_half_even_bounds(2) [of x] round_half_even_bounds(1) [of y] show ?thesis
    by linarith
qed

lemma round_binary64_pos:
  assumes "0 < x"
  shows "round_binary64 x = of_int (round_half_even (x / 2 powi (ilog2 x - 52))) * 2 powi (ilog2 x - 52)"
  using assms by (simp add: round_binary64_def Let_def)

lemma round_binary64_bounds:
  assumes "0 < x"
  shows "2 powi ilog2 x \<le> round_binary64 x" and "round_binary64 x \<le> 2 powi (ilog2 x + 1)"
proof -
  define e where "e = ilog2 x - 52"
  define s where "s = x / 2 powi e"
  have p: "(0::real) < 2 powi e" by simp
  have k: "(2::real) powi ilog2 x = 2 ^ 52 * 2 powi e"
    "(2::real) powi (ilog2 x + 1) = 2 ^ 53 * 2 powi e"
    by (simp_all add: e_def power_int_diff power_int_add)
  from ilog2_bounds [OF assms] have "2 ^ 52 * 2 powi e \<le> x" "x < 2 ^ 53 * 2 powi e"
    by (simp_all only: k)
  with p have "2 ^ 52 \<le> s" "s \<le> 2 ^ 53"
    by (simp_all add: s_def field_simps)
  then have "of_int (2 ^ 52) \<le> s" "s \<le> of_int (2 ^ 53)" by simp_all
  from round_half_even_mono [OF this(1)] round_half_even_mono [OF this(2)]
  have "2 ^ 52 \<le> round_half_even s" "round_half_even s \<le> 2 ^ 53"
    by (simp_all only: round_half_even_of_int)
  then have "real_of_int (2 ^ 52) \<le> of_int (round_half_even s)"
    "real_of_int (round_half_even s) \<le> of_int (2 ^ 53)"
    by (simp_all only: of_int_le_iff)
  then have "2 ^ 52 \<le> real_of_int (round_half_even s)"
    "real_of_int (round_half_even s) \<le> 2 ^ 53" by simp_all
  with p have "2 ^ 52 * 2 powi e \<le> real_of_int (round_half_even s) * 2 powi e"
    "real_of_int (round_half_even s) * 2 powi e \<le> 2 ^ 53 * 2 powi e"
    by (simp_all only: mult_le_cancel_right_pos)
  then show "2 powi ilog2 x \<le> round_binary64 x" and "round_binary64 x \<le> 2 powi (ilog2 x + 1)"
    by (simp_all only: k round_binary64_pos [OF assms] e_def [symmetric] s_def [symmetric])
qed

lemma round_binary64_mono_pos:
  assumes "0 < x" "x \<le> y"
  shows "round_binary64 x \<le> round_binary64 y"
proof (cases "ilog2 x = ilog2 y")
  case True
  from assms have y: "0 < y" by simp
  define e where "e = ilog2 x - 52"
  have p: "(0::real) < 2 powi e" by simp
  from assms(2) have "x / 2 powi e \<le> y / 2 powi e" by (rule divide_right_mono) simp
  from round_half_even_mono [OF this]
  have "real_of_int (round_half_even (x / 2 powi e)) \<le> of_int (round_half_even (y / 2 powi e))"
    by (simp only: of_int_le_iff)
  with p have "real_of_int (round_half_even (x / 2 powi e)) * 2 powi e
      \<le> of_int (round_half_even (y / 2 powi e)) * 2 powi e"
    by (simp only: mult_le_cancel_right_pos)
  then show ?thesis
    by (simp only: round_binary64_pos [OF assms(1)] round_binary64_pos [OF y] True [symmetric]
        e_def [symmetric])
next
  case False
  from assms have y: "0 < y" by simp
  from False ilog2_mono [OF assms] have "ilog2 x + 1 \<le> ilog2 y" by simp
  then have "(2::real) powi (ilog2 x + 1) \<le> 2 powi ilog2 y"
    by (intro power_int_increasing) simp_all
  with round_binary64_bounds(2) [OF assms(1)] round_binary64_bounds(1) [OF y]
  show ?thesis by linarith
qed

lemma round_binary64_0: "round_binary64 0 = 0"
  by (simp add: round_binary64_def)

lemma round_binary64_gt_0: "0 < x \<Longrightarrow> 0 < round_binary64 x"
proof -
  assume x: "0 < x"
  have "(0::real) < 2 powi ilog2 x" by simp
  with round_binary64_bounds(1) [OF x] show ?thesis by linarith
qed

lemma round_binary64_mono:
  assumes "0 \<le> x" "x \<le> y"
  shows "round_binary64 x \<le> round_binary64 y"
proof (cases "x = 0")
  case True
  show ?thesis
  proof (cases "y = 0")
    case y: True
    with True show ?thesis by simp
  next
    case False
    with assms have "0 < y" by simp
    from round_binary64_gt_0 [OF this] True show ?thesis by (simp add: round_binary64_0)
  qed
next
  case False
  with assms have "0 < x" by simp
  from round_binary64_mono_pos [OF this assms(2)] show ?thesis .
qed

lemma round_binary64_1: "round_binary64 1 = 1"
  by code_simp

lemma round_binary64_2: "round_binary64 2 = 2"
  by code_simp

lemma float64_of_int_0: "float64_of_int 0 = 0"
  by (simp add: float64_of_int_def round_binary64_0)

lemma float64_of_int_pos: "0 < n \<Longrightarrow> 0 < float64_of_int n"
  by (simp add: float64_of_int_def round_binary64_gt_0)

lemma float64_of_int_mono:
  assumes "0 \<le> m" "m \<le> n"
  shows "float64_of_int m \<le> float64_of_int n"
  unfolding float64_of_int_def using assms by (intro round_binary64_mono) simp_all

lemma float64_of_int_nonneg: "0 \<le> n \<Longrightarrow> 0 \<le> float64_of_int n"
  using float64_of_int_mono [of 0 n] by (simp add: float64_of_int_0)

lemma float64_div_Finite:
  assumes "0 < y"
  shows "float64_div x y = Finite (round_binary64 (x / y))"
  using assms by (simp add: float64_div_def)

lemma quotient_le_1:
  assumes "0 \<le> x" "x \<le> y" "0 < y"
  shows "0 \<le> round_binary64 (x / y)" and "round_binary64 (x / y) \<le> 1"
proof -
  from assms have q: "0 \<le> x / y" "x / y \<le> 1" by simp_all
  from round_binary64_mono [OF order_refl q(1)] show "0 \<le> round_binary64 (x / y)"
    by (simp add: round_binary64_0)
  from round_binary64_mono [OF q] show "round_binary64 (x / y) \<le> 1"
    by (simp add: round_binary64_1)
qed

lemma quotient_ge_1:
  assumes "0 < y" "y \<le> x"
  shows "1 \<le> round_binary64 (x / y)"
proof -
  from assms have "1 \<le> x / y" by simp
  from round_binary64_mono [OF _ this] show ?thesis by (simp add: round_binary64_1)
qed

subsection \<open>The two barriers\<close>

lemma sint_Since:
  "sint (Since t now) = max (- (2 ^ 63)) (min (2 ^ 63 - 1) (now - t))"
proof -
  let ?k = "max (- (2 ^ 63)) (min (2 ^ 63 - 1) (now - t)) :: int"
  have "- (2 ^ 63) \<le> ?k" "?k < 2 ^ 63" by simp_all
  then have "signed_take_bit 63 ?k = ?k"
    by (rule signed_take_bit_int_eq_self)
  then show ?thesis
    by (simp add: Since_def sint_sbintrunc')
qed

lemma done_below_total_call:
  assumes "done_below_total c"
  shows "\<exists>c'. call (Counting c) x = Inr (Counting c') \<and> done_below_total c'
           \<and> numReqs c' = numReqs c"
proof -
  from assms have i: "once_inv c" and d: "is_closed (doneChan c) \<or> reqsDone c < numReqs c"
    by (simp_all add: done_below_total_def)
  show ?thesis
  proof (cases x)
    case CallTryGrabWork
    with i d show ?thesis
      by (auto simp: counting_tryGrabWork_def Let_def done_below_total_def
          once_inv_update_counters)
  next
    case CallJobDone
    let ?c = "c\<lparr>reqsDone := reqsDone c + 1\<rparr>"
    from i have i': "once_inv ?c" by (simp add: once_inv_update_counters)
    show ?thesis
    proof (cases "reqsDone c + 1 = numReqs c")
      case True
      with CallJobDone closeOnce_Do_close_eq [OF i'] show ?thesis
        by (simp add: counting_jobDone_def AddUint64_def Let_def done_below_total_def
            once_inv_def)
    next
      case False
      have "is_closed (doneChan c) \<or> reqsDone c + 1 < numReqs c"
      proof (cases "is_closed (doneChan c)")
        case True
        then show ?thesis by simp
      next
        case still_open: False
        with d have "reqsDone c < numReqs c" by simp
        then have "reqsDone c + 1 \<le> numReqs c"
          by (simp add: word_succ_le_iff)
        with False show ?thesis by (simp add: order_less_le)
      qed
      with False CallJobDone i' show ?thesis
        by (simp add: counting_jobDone_def AddUint64_def Let_def done_below_total_def)
    qed
  next
    case CallCancel
    with closeOnce_Do_close_eq [OF i] show ?thesis
      by (simp add: counting_Cancel_def done_below_total_def once_inv_def)
  next
    case CallCompleted
    with assms show ?thesis by simp
  next
    case Deadline
    with assms show ?thesis by simp
  qed
qed

lemma done_below_total_calls:
  assumes "done_below_total c" "calls (Counting c) xs = Inr (Counting c')"
  shows "done_below_total c' \<and> numReqs c' = numReqs c"
  using assms
proof (induction xs arbitrary: c)
  case Nil
  then show ?case by simp
next
  case (Cons x xs)
  from done_below_total_call [OF Cons.prems(1), of x] obtain c1 where
    c1: "call (Counting c) x = Inr (Counting c1)" "done_below_total c1" "numReqs c1 = numReqs c"
    by blast
  with Cons.prems(2) have "calls (Counting c1) xs = Inr (Counting c')" by simp
  from Cons.IH [OF c1(2) this] c1(3) show ?case by simp
qed

lemma done_below_total_new: "K \<noteq> 0 \<Longrightarrow> done_below_total (newCountingCompletionBarrier K)"
  by (simp add: done_below_total_def once_inv_new_counting)
    (simp add: newCountingCompletionBarrier_def word_neq_0_conv)

lemma counting_completed_unit:
  assumes "numReqs c \<noteq> 0" "is_closed (doneChan c) \<or> reqsDone c \<le> numReqs c"
  shows "in_unit_interval (counting_completed c)"
proof (cases "is_closed (doneChan c)")
  case True
  then show ?thesis by (simp add: counting_completed_def)
next
  case False
  with assms(2) have dk: "reqsDone c \<le> numReqs c" by simp
  from assms(1) have "uint (numReqs c) \<noteq> 0" by (simp add: uint_0_iff)
  moreover have "0 \<le> uint (numReqs c)" by simp
  ultimately have "0 < uint (numReqs c)" by linarith
  then have k: "0 < float64_of_int (uint (numReqs c))" by (rule float64_of_int_pos)
  from dk have "uint (reqsDone c) \<le> uint (numReqs c)" by (simp add: word_le_def)
  then have le: "float64_of_int (uint (reqsDone c)) \<le> float64_of_int (uint (numReqs c))"
    by (intro float64_of_int_mono) simp_all
  have d: "0 \<le> float64_of_int (uint (reqsDone c))" by (rule float64_of_int_nonneg) simp
  from quotient_le_1 [OF d le k] show ?thesis
    by (simp only: counting_completed_def False if_False float64_div_Finite [OF k]
        in_unit_interval.simps)
qed

lemma done_count_step:
  assumes inv: "pool_inv s"
    and le: "issued s + workers_at s AtPace + workers_at s AtRequest \<le> grabbed_true s"
    and eq: "issued s = unat (reqsDone (barrier s)) + workers_at s AtDoneAdd"
    and st: "worker_step s i r = Inr s'"
  shows "issued s' = unat (reqsDone (barrier s')) + workers_at s' AtDoneAdd"
proof (cases "length (positions s) \<le> i")
  case True
  with eq st show ?thesis by (simp add: worker_step_def)
next
  case False
  then have i: "i < length (positions s)" by simp
  from inv have o: "once_inv (barrier s)"
    and tk: "grabbed_true s \<le> unat (numReqs (barrier s))"
    and b: "unat (numReqs (barrier s)) + length (positions s) < 2 ^ 64"
    by (simp_all add: pool_inv_def)
  note l = eq [unfolded workers_at_def]
  show ?thesis
  proof (cases "positions s ! i")
    case AtSelect
    note w = count_list_after [OF i AtSelect]
    from AtSelect False st l show ?thesis
      by (auto simp: worker_step_def workers_at_def w)
  next
    case AtGrabAdd
    note w = count_list_after [OF i AtGrabAdd]
    from AtGrabAdd False st l show ?thesis
      by (auto simp: worker_step_def workers_at_def w AddUint64_def Let_def split: if_splits)
  next
    case AtPace
    note w = count_list_after [OF i AtPace]
    from AtPace False st l show ?thesis
      by (auto simp: worker_step_def workers_at_def w)
  next
    case AtRequest
    note w = count_list_after [OF i AtRequest]
    from AtRequest False st l show ?thesis
      by (auto simp: worker_step_def workers_at_def w)
  next
    case AtDoneAdd
    note w = count_list_after [OF i AtDoneAdd] and pos = count_list_at [OF i AtDoneAdd]
    from pos l le tk b have "unat (reqsDone (barrier s)) + 1 < 2 ^ 64" by linarith
    then have u: "unat (reqsDone (barrier s) + 1) = unat (reqsDone (barrier s)) + 1"
      by (rule unat_succ_no_wrap)
    from AtDoneAdd False st l pos show ?thesis
      by (auto simp: worker_step_def workers_at_def w AddUint64_def Let_def u)
  next
    case AtCloseOnce
    note w = count_list_after [OF i AtCloseOnce]
    from AtCloseOnce False st l closeOnce_Do_close_eq [OF o] show ?thesis
      by (auto simp: worker_step_def workers_at_def w)
  next
    case Returned
    with False st eq show ?thesis by (simp add: worker_step_def)
  qed
qed

lemma done_count_run:
  assumes "pool_inv s"
    and "issued s + workers_at s AtPace + workers_at s AtRequest \<le> grabbed_true s"
    and "issued s = unat (reqsDone (barrier s)) + workers_at s AtDoneAdd"
    and "run s es = Inr s'"
  shows "reqsDone (barrier s') \<le> numReqs (barrier s')
           \<and> numReqs (barrier s') = numReqs (barrier s)"
  using assms
proof (induction es arbitrary: s)
  case Nil
  from Nil.prems(1) have "grabbed_true s \<le> unat (numReqs (barrier s))"
    by (simp add: pool_inv_def)
  with Nil.prems(2,3) have "unat (reqsDone (barrier s)) \<le> unat (numReqs (barrier s))"
    by linarith
  with Nil.prems(4) show ?case by (simp add: word_le_nat_alt)
next
  case (Cons e es)
  from exec_pool_inv [OF Cons.prems(1), of e] obtain s1 where
    s1: "exec s e = Inr s1" "pool_inv s1" "numReqs (barrier s1) = numReqs (barrier s)"
    by (elim exE conjE)
  with Cons.prems(4) have r: "run s1 es = Inr s'" by simp
  have "issued s1 + workers_at s1 AtPace + workers_at s1 AtRequest \<le> grabbed_true s1
      \<and> issued s1 = unat (reqsDone (barrier s1)) + workers_at s1 AtDoneAdd"
  proof (cases e)
    case (Step i r)
    with s1(1) have st: "worker_step s i r = Inr s1" by simp
    from issued_le_step [OF Cons.prems(1,2) st] done_count_step [OF Cons.prems(1,2,3) st]
    show ?thesis by (rule conjI)
  next
    case ExternalCancel
    from Cons.prems(1) have o: "once_inv (barrier s)" by (simp add: pool_inv_def)
    from ExternalCancel s1(1) closeOnce_Do_close_eq [OF o] Cons.prems(2,3) show ?thesis
      by (auto simp: counting_Cancel_def workers_at_def)
  qed
  then have 1: "issued s1 + workers_at s1 AtPace + workers_at s1 AtRequest \<le> grabbed_true s1"
    and 2: "issued s1 = unat (reqsDone (barrier s1)) + workers_at s1 AtDoneAdd"
    by (rule conjunct1, rule conjunct2)
  from Cons.IH [OF s1(2) 1 2 r] have a: "reqsDone (barrier s') \<le> numReqs (barrier s')"
    and b: "numReqs (barrier s') = numReqs (barrier s1)"
    by (rule conjunct1, rule conjunct2)
  from b s1(3) have c: "numReqs (barrier s') = numReqs (barrier s)" by (rule trans)
  from a c show ?case by (rule conjI)
qed

lemma done_count_Bombard_pool:
  assumes "unat K + N < 2 ^ 64" "run (Bombard_pool K N) es = Inr s"
  shows "reqsDone (barrier s) \<le> numReqs (barrier s)" and "numReqs (barrier s) = K"
proof -
  let ?s0 = "Bombard_pool K N"
  have 1: "issued ?s0 + workers_at ?s0 AtPace + workers_at ?s0 AtRequest \<le> grabbed_true ?s0"
    by (simp add: Bombard_pool_def workers_at_def)
  have 2: "issued ?s0 = unat (reqsDone (barrier ?s0)) + workers_at ?s0 AtDoneAdd"
    by (simp add: Bombard_pool_def workers_at_def newCountingCompletionBarrier_def)
  have k: "numReqs (barrier ?s0) = K"
    by (simp add: Bombard_pool_def newCountingCompletionBarrier_def)
  note r = done_count_run [OF pool_inv_Bombard_pool [OF assms(1)] 1 2 assms(2)]
  from r show "reqsDone (barrier s) \<le> numReqs (barrier s)" by (rule conjunct1)
  from r have "numReqs (barrier s) = numReqs (barrier ?s0)" by (rule conjunct2)
  from this k show "numReqs (barrier s) = K" by (rule trans)
qed

lemma timed_completed_open:
  assumes "\<not> is_closed (doneChan t)" "0 < sint (duration t)" "start t \<le> now"
  shows "\<exists>r. timed_completed t now = Finite r
           \<and> r = round_binary64 (float64_of_int (sint (Since (start t) now))
                                   / float64_of_int (sint (duration t)))
           \<and> 0 \<le> r
           \<and> (sint (Since (start t) now) \<le> sint (duration t) \<longrightarrow> r \<le> 1)
           \<and> (sint (duration t) \<le> sint (Since (start t) now) \<longrightarrow> 1 \<le> r)"
proof -
  let ?e = "sint (Since (start t) now)" and ?d = "sint (duration t)"
  let ?r = "round_binary64 (float64_of_int ?e / float64_of_int ?d)"
  from assms(3) have e: "0 \<le> ?e" by (simp add: sint_Since)
  from assms(2) have d: "0 < float64_of_int ?d" by (rule float64_of_int_pos)
  from e have fe: "0 \<le> float64_of_int ?e" by (rule float64_of_int_nonneg)
  have v: "timed_completed t now = Finite ?r"
    by (simp only: timed_completed_def assms(1) if_False float64_div_Finite [OF d])
  from fe d have "0 \<le> float64_of_int ?e / float64_of_int ?d" by simp
  from round_binary64_mono [OF order_refl this] have 0: "0 \<le> ?r"
    by (simp add: round_binary64_0)
  have 1: "?r \<le> 1" if "?e \<le> ?d"
    using quotient_le_1(2) [OF fe float64_of_int_mono [OF e that] d] .
  have 2: "1 \<le> ?r" if "?d \<le> ?e"
  proof -
    from assms(2) have "0 \<le> ?d" by simp
    from quotient_ge_1 [OF d float64_of_int_mono [OF this that]] show ?thesis .
  qed
  have "?r = ?r" by (rule refl)
  from v this 0 1 2 show ?thesis by (intro exI [of _ ?r] conjI impI)
qed

lemma completed_closed: "is_closed (barrier_done b) \<Longrightarrow> completed b now = Finite 1"
  by (cases b) (simp_all add: counting_done_def timed_done_def counting_completed_def
      timed_completed_def)

text \<open>
  Rounding makes \<^verbatim>\<open>completed()\<close> return exactly 1 before its quotient is 1: a counting barrier
  for \<open>2^53 + 1\<close> requests with \<open>2^53\<close> done, and a timed barrier for 9001 hours asked one
  nanosecond after they have passed, both with the channel open.
\<close>

lemma completed_rounds_to_one:
  "counting_completed \<lparr>doneChan = make_chan, closeOnce = False, numReqs = 2 ^ 53 + 1,
       reqsGrabbed = 2 ^ 53, reqsDone = 2 ^ 53\<rparr> = Finite 1"
  "timed_completed \<lparr>doneChan = make_chan, closeOnce = False, start = 0,
       duration = 32403600000000000\<rparr> 32403600000000001 = Finite 1"
  by code_simp+

text \<open>
  C4, as amended. Once the done channel is closed, for whatever reason, \<^verbatim>\<open>completed()\<close> of
  either barrier is exactly 1. While it is open, a counting barrier made for \<open>K \<ge> 1\<close>
  requests returns the \<^verbatim>\<open>float64\<close> quotient of \<^verbatim>\<open>reqsDone\<close> and \<open>K\<close>, and that lies in the closed
  interval from 0 to 1: after any sequence of calls on the barrier, and in every state of
  a run of \<open>N\<close> workers with \<open>K + N < 2^64\<close>, whatever the interleaving, the answers of the
  limiter and the calls of \<^verbatim>\<open>Cancel\<close>; among these states are the ones between the
  \<^verbatim>\<open>AddUint64\<close> on \<^verbatim>\<open>reqsDone\<close> and the \<^verbatim>\<open>closeOnce.Do\<close> of the last \<^verbatim>\<open>jobDone\<close>, where the value
  is 1 with the channel open. A timed barrier returns the \<^verbatim>\<open>float64\<close> quotient of the time
  since its start and its duration, with no clamp: for a positive duration and a clock
  that has not gone back the value is at least 0, at most 1 while the elapsed time is at
  most the duration, and at least 1 once the elapsed time is at least the duration.
\<close>

theorem completed_range:
  "(is_closed (barrier_done b) \<longrightarrow> completed b now = Finite 1)
   \<and> (K \<noteq> 0 \<and> calls (Counting (newCountingCompletionBarrier K)) xs = Inr (Counting c) \<longrightarrow>
        in_unit_interval (counting_completed c)
        \<and> counting_completed c =
            (if is_closed (doneChan c) then Finite 1
             else Finite (round_binary64
                    (float64_of_int (uint (reqsDone c)) / float64_of_int (uint K)))))
   \<and> (K \<noteq> 0 \<and> unat K + N < 2 ^ 64 \<and> run (Bombard_pool K N) es = Inr s \<longrightarrow>
        in_unit_interval (counting_completed (barrier s))
        \<and> counting_completed (barrier s) =
            (if is_closed (doneChan (barrier s)) then Finite 1
             else Finite (round_binary64
                    (float64_of_int (uint (reqsDone (barrier s))) / float64_of_int (uint K)))))
   \<and> (\<not> is_closed (doneChan t) \<and> 0 < sint (duration t) \<and> start t \<le> now \<longrightarrow>
        (\<exists>r. timed_completed t now = Finite r
           \<and> r = round_binary64 (float64_of_int (sint (Since (start t) now))
                                   / float64_of_int (sint (duration t)))
           \<and> 0 \<le> r
           \<and> (sint (Since (start t) now) \<le> sint (duration t) \<longrightarrow> r \<le> 1)
           \<and> (sint (duration t) \<le> sint (Since (start t) now) \<longrightarrow> 1 \<le> r)))"
proof -
  have counted: "in_unit_interval (counting_completed c')
        \<and> counting_completed c' =
            (if is_closed (doneChan c') then Finite 1
             else Finite (round_binary64
                    (float64_of_int (uint (reqsDone c')) / float64_of_int (uint K))))"
    if k0: "K \<noteq> 0" and k: "numReqs c' = K"
      and le: "is_closed (doneChan c') \<or> reqsDone c' \<le> numReqs c'" for c'
  proof -
    from k0 k have n: "numReqs c' \<noteq> 0" by simp
    from k0 have "uint K \<noteq> 0" by (simp add: uint_0_iff)
    moreover have "0 \<le> uint K" by simp
    ultimately have "0 < uint K" by linarith
    then have p: "0 < float64_of_int (uint K)" by (rule float64_of_int_pos)
    have "counting_completed c' =
            (if is_closed (doneChan c') then Finite 1
             else Finite (round_binary64
                    (float64_of_int (uint (reqsDone c')) / float64_of_int (uint K))))"
      by (simp only: counting_completed_def k float64_div_Finite [OF p])
    with counting_completed_unit [OF n le] show ?thesis by (rule conjI)
  qed
  have 1: "is_closed (barrier_done b) \<longrightarrow> completed b now = Finite 1"
    using completed_closed [of b now] by (rule impI)
  have 2: "K \<noteq> 0 \<and> calls (Counting (newCountingCompletionBarrier K)) xs = Inr (Counting c) \<longrightarrow>
        in_unit_interval (counting_completed c)
        \<and> counting_completed c =
            (if is_closed (doneChan c) then Finite 1
             else Finite (round_binary64
                    (float64_of_int (uint (reqsDone c)) / float64_of_int (uint K))))"
  proof
    assume a: "K \<noteq> 0 \<and> calls (Counting (newCountingCompletionBarrier K)) xs = Inr (Counting c)"
    then have k0: "K \<noteq> 0"
      and r: "calls (Counting (newCountingCompletionBarrier K)) xs = Inr (Counting c)"
      by (rule conjunct1, rule conjunct2)
    from done_below_total_calls [OF done_below_total_new [OF k0] r]
    have d: "done_below_total c" and k: "numReqs c = K"
      by (simp_all add: newCountingCompletionBarrier_def)
    from d have "is_closed (doneChan c) \<or> reqsDone c < numReqs c"
      by (simp add: done_below_total_def)
    then have le: "is_closed (doneChan c) \<or> reqsDone c \<le> numReqs c"
      by (rule disj_forward) simp_all
    from counted [OF k0 k le] show "in_unit_interval (counting_completed c)
        \<and> counting_completed c =
            (if is_closed (doneChan c) then Finite 1
             else Finite (round_binary64
                    (float64_of_int (uint (reqsDone c)) / float64_of_int (uint K))))" .
  qed
  have 3: "K \<noteq> 0 \<and> unat K + N < 2 ^ 64 \<and> run (Bombard_pool K N) es = Inr s \<longrightarrow>
        in_unit_interval (counting_completed (barrier s))
        \<and> counting_completed (barrier s) =
            (if is_closed (doneChan (barrier s)) then Finite 1
             else Finite (round_binary64
                    (float64_of_int (uint (reqsDone (barrier s))) / float64_of_int (uint K))))"
  proof
    assume a: "K \<noteq> 0 \<and> unat K + N < 2 ^ 64 \<and> run (Bombard_pool K N) es = Inr s"
    then have k0: "K \<noteq> 0" by (rule conjunct1)
    from a have n: "unat K + N < 2 ^ 64" by (rule conjunct2 [THEN conjunct1])
    from a have r: "run (Bombard_pool K N) es = Inr s" by (rule conjunct2 [THEN conjunct2])
    note d = done_count_Bombard_pool [OF n r]
    from d(1) have le: "is_closed (doneChan (barrier s))
        \<or> reqsDone (barrier s) \<le> numReqs (barrier s)"
      by (rule disjI2)
    from counted [OF k0 d(2) le] show "in_unit_interval (counting_completed (barrier s))
        \<and> counting_completed (barrier s) =
            (if is_closed (doneChan (barrier s)) then Finite 1
             else Finite (round_binary64
                    (float64_of_int (uint (reqsDone (barrier s))) / float64_of_int (uint K))))" .
  qed
  have 4: "\<not> is_closed (doneChan t) \<and> 0 < sint (duration t) \<and> start t \<le> now \<longrightarrow>
        (\<exists>r. timed_completed t now = Finite r
           \<and> r = round_binary64 (float64_of_int (sint (Since (start t) now))
                                   / float64_of_int (sint (duration t)))
           \<and> 0 \<le> r
           \<and> (sint (Since (start t) now) \<le> sint (duration t) \<longrightarrow> r \<le> 1)
           \<and> (sint (duration t) \<le> sint (Since (start t) now) \<longrightarrow> 1 \<le> r))"
  proof
    assume a: "\<not> is_closed (doneChan t) \<and> 0 < sint (duration t) \<and> start t \<le> now"
    then have o: "\<not> is_closed (doneChan t)" by (rule conjunct1)
    from a have d: "0 < sint (duration t)" by (rule conjunct2 [THEN conjunct1])
    from a have n: "start t \<le> now" by (rule conjunct2 [THEN conjunct2])
    from timed_completed_open [OF o d n] show "\<exists>r. timed_completed t now = Finite r
           \<and> r = round_binary64 (float64_of_int (sint (Since (start t) now))
                                   / float64_of_int (sint (duration t)))
           \<and> 0 \<le> r
           \<and> (sint (Since (start t) now) \<le> sint (duration t) \<longrightarrow> r \<le> 1)
           \<and> (sint (duration t) \<le> sint (Since (start t) now) \<longrightarrow> 1 \<le> r)" .
  qed
  from 1 2 3 4 show ?thesis by (intro conjI)
qed

theorem completed_range_witness:
  "calls (Counting (newCountingCompletionBarrier 1)) [CallTryGrabWork]
     = Inr (Counting \<lparr>doneChan = make_chan, closeOnce = False,
                       numReqs = 1, reqsGrabbed = 1, reqsDone = 0\<rparr>)
   \<and> counting_completed \<lparr>doneChan = make_chan, closeOnce = False,
                       numReqs = 1, reqsGrabbed = 1, reqsDone = 0\<rparr> = Finite 0
   \<and> run (Bombard_pool 1 1) (full_turn 0)
     = Inr \<lparr>barrier = \<lparr>doneChan = make_chan, closeOnce = False,
                       numReqs = 1, reqsGrabbed = 1, reqsDone = 1\<rparr>,
             positions = [AtCloseOnce], grabbed_true = 1, issued = 1\<rparr>
   \<and> \<not> is_closed (doneChan \<lparr>doneChan = make_chan, closeOnce = False,
                       numReqs = 1 :: uint64, reqsGrabbed = 1 :: uint64, reqsDone = 1 :: uint64\<rparr>)
   \<and> counting_completed \<lparr>doneChan = make_chan, closeOnce = False,
                       numReqs = 1, reqsGrabbed = 1, reqsDone = 1\<rparr> = Finite 1
   \<and> timed_completed \<lparr>doneChan = make_chan, closeOnce = False, start = 0,
                       duration = 1000000000\<rparr> 250000000 = Finite (1 / 4)
   \<and> completed (Timed \<lparr>doneChan = \<lparr>is_closed = True, closes = 1\<rparr>, closeOnce = True, start = 0,
                       duration = 1000000000\<rparr>) 250000000 = Finite 1"
proof -
  let ?c = "\<lparr>doneChan = make_chan, closeOnce = False,
                       numReqs = 1, reqsGrabbed = 1, reqsDone = 0 :: uint64\<rparr>"
  let ?d = "\<lparr>doneChan = make_chan, closeOnce = False,
                       numReqs = 1, reqsGrabbed = 1, reqsDone = 1 :: uint64\<rparr>"
  let ?s = "\<lparr>barrier = ?d, positions = [AtCloseOnce], grabbed_true = 1, issued = 1\<rparr>"
  let ?t = "\<lparr>doneChan = make_chan, closeOnce = False, start = 0, duration = 1000000000 :: int64\<rparr>"
  let ?b = "Timed \<lparr>doneChan = \<lparr>is_closed = True, closes = 1\<rparr>, closeOnce = True, start = 0,
                       duration = 1000000000 :: int64\<rparr>"
  note th = completed_range [of ?b 250000000 1 "[CallTryGrabWork]" ?c 1 "full_turn 0" ?s ?t]
  have r1: "calls (Counting (newCountingCompletionBarrier 1)) [CallTryGrabWork] = Inr (Counting ?c)"
    by code_simp
  have r2: "run (Bombard_pool 1 1) (full_turn 0) = Inr ?s"
    by code_simp
  have o1: "\<not> is_closed (doneChan ?c)" and o2: "\<not> is_closed (doneChan ?d)"
    by (simp_all add: make_chan_def)
  have h2: "(1 :: uint64) \<noteq> 0 \<and> calls (Counting (newCountingCompletionBarrier 1)) [CallTryGrabWork]
      = Inr (Counting ?c)"
    using r1 by simp
  have h3: "(1 :: uint64) \<noteq> 0 \<and> unat (1 :: uint64) + 1 < 2 ^ 64
      \<and> run (Bombard_pool 1 1) (full_turn 0) = Inr ?s"
    using r2 by simp
  have h4: "\<not> is_closed (doneChan ?t) \<and> 0 < sint (duration ?t) \<and> start ?t \<le> 250000000"
    by (simp add: make_chan_def)
  have h1: "is_closed (barrier_done ?b)" by (simp add: timed_done_def)
  from th have "is_closed (barrier_done ?b) \<longrightarrow> completed ?b 250000000 = Finite 1"
    by (rule conjunct1)
  from this h1 have 1: "completed ?b 250000000 = Finite 1" by (rule mp)
  from th have "(1 :: uint64) \<noteq> 0
      \<and> calls (Counting (newCountingCompletionBarrier 1)) [CallTryGrabWork] = Inr (Counting ?c)
      \<longrightarrow> in_unit_interval (counting_completed ?c)
        \<and> counting_completed ?c =
            (if is_closed (doneChan ?c) then Finite 1
             else Finite (round_binary64
                    (float64_of_int (uint (reqsDone ?c)) / float64_of_int (uint (1 :: uint64)))))"
    by (rule conjunct2 [THEN conjunct1])
  from this h2 have "in_unit_interval (counting_completed ?c)
        \<and> counting_completed ?c =
            (if is_closed (doneChan ?c) then Finite 1
             else Finite (round_binary64
                    (float64_of_int (uint (reqsDone ?c)) / float64_of_int (uint (1 :: uint64)))))"
    by (rule mp)
  then have "counting_completed ?c =
            (if is_closed (doneChan ?c) then Finite 1
             else Finite (round_binary64
                    (float64_of_int (uint (reqsDone ?c)) / float64_of_int (uint (1 :: uint64)))))"
    by (rule conjunct2)
  with o1 have 2: "counting_completed ?c = Finite 0"
    by (simp add: float64_of_int_0 round_binary64_0)
  from th have "(1 :: uint64) \<noteq> 0 \<and> unat (1 :: uint64) + 1 < 2 ^ 64
      \<and> run (Bombard_pool 1 1) (full_turn 0) = Inr ?s
      \<longrightarrow> in_unit_interval (counting_completed (barrier ?s))
        \<and> counting_completed (barrier ?s) =
            (if is_closed (doneChan (barrier ?s)) then Finite 1
             else Finite (round_binary64
                    (float64_of_int (uint (reqsDone (barrier ?s)))
                       / float64_of_int (uint (1 :: uint64)))))"
    by (rule conjunct2 [THEN conjunct2, THEN conjunct1])
  from this h3 have "in_unit_interval (counting_completed (barrier ?s))
        \<and> counting_completed (barrier ?s) =
            (if is_closed (doneChan (barrier ?s)) then Finite 1
             else Finite (round_binary64
                    (float64_of_int (uint (reqsDone (barrier ?s)))
                       / float64_of_int (uint (1 :: uint64)))))"
    by (rule mp)
  then have "counting_completed (barrier ?s) =
            (if is_closed (doneChan (barrier ?s)) then Finite 1
             else Finite (round_binary64
                    (float64_of_int (uint (reqsDone (barrier ?s)))
                       / float64_of_int (uint (1 :: uint64)))))"
    by (rule conjunct2)
  then have 3: "counting_completed ?d = Finite 1"
    by (simp add: float64_of_int_def round_binary64_1)
  from th have "\<not> is_closed (doneChan ?t) \<and> 0 < sint (duration ?t) \<and> start ?t \<le> 250000000 \<longrightarrow>
        (\<exists>r. timed_completed ?t 250000000 = Finite r
           \<and> r = round_binary64 (float64_of_int (sint (Since (start ?t) 250000000))
                                   / float64_of_int (sint (duration ?t)))
           \<and> 0 \<le> r
           \<and> (sint (Since (start ?t) 250000000) \<le> sint (duration ?t) \<longrightarrow> r \<le> 1)
           \<and> (sint (duration ?t) \<le> sint (Since (start ?t) 250000000) \<longrightarrow> 1 \<le> r))"
    by (rule conjunct2 [THEN conjunct2, THEN conjunct2])
  from this h4 have "\<exists>r. timed_completed ?t 250000000 = Finite r
           \<and> r = round_binary64 (float64_of_int (sint (Since (start ?t) 250000000))
                                   / float64_of_int (sint (duration ?t)))
           \<and> 0 \<le> r
           \<and> (sint (Since (start ?t) 250000000) \<le> sint (duration ?t) \<longrightarrow> r \<le> 1)
           \<and> (sint (duration ?t) \<le> sint (Since (start ?t) 250000000) \<longrightarrow> 1 \<le> r)"
    by (rule mp)
  then obtain r where "timed_completed ?t 250000000 = Finite r"
    and "r = round_binary64 (float64_of_int (sint (Since (start ?t) 250000000))
                                   / float64_of_int (sint (duration ?t)))"
    by (elim exE conjE)
  then have v: "timed_completed ?t 250000000
      = Finite (round_binary64 (float64_of_int (sint (Since (start ?t) 250000000))
                                   / float64_of_int (sint (duration ?t))))"
    by (simp only:)
  have "round_binary64 (float64_of_int (sint (Since (start ?t) 250000000))
                                   / float64_of_int (sint (duration ?t))) = 1 / 4"
    by code_simp
  with v have 4: "timed_completed ?t 250000000 = Finite (1 / 4)" by (simp only:)
  from r1 2 r2 o2 3 4 1 show ?thesis by (intro conjI)
qed

text \<open>
  The claim as stated fails on the timed barrier: one made at instant 0 for one second and
  asked at two seconds, with the channel still open (the timer is armed by a goroutine of
  its own, after the start has been recorded, so it closes the channel some time after the
  duration has passed), returns 2.
\<close>

theorem completed_unclamped_counterexample:
  "newTimedCompletionBarrier 0 1000000000
     = Inr \<lparr>doneChan = make_chan, closeOnce = False, start = 0, duration = 1000000000\<rparr>
   \<and> timed_completed
       \<lparr>doneChan = make_chan, closeOnce = False, start = 0, duration = 1000000000\<rparr> 2000000000
     = Finite 2
   \<and> \<not> in_unit_interval (timed_completed
       \<lparr>doneChan = make_chan, closeOnce = False, start = 0, duration = 1000000000\<rparr> 2000000000)"
proof -
  let ?t = "\<lparr>doneChan = make_chan, closeOnce = False, start = 0, duration = 1000000000 :: int64\<rparr>"
  have 1: "newTimedCompletionBarrier 0 1000000000 = Inr ?t"
    by (simp add: newTimedCompletionBarrier_def)
  have 2: "timed_completed ?t 2000000000 = Finite 2"
    by code_simp
  then have 3: "\<not> in_unit_interval (timed_completed ?t 2000000000)"
    by simp
  from 1 2 3 show ?thesis by (intro conjI)
qed

end
